theory Spec2Isabelle
  imports Main "HOL-Library.Word"
begin

section \<open>Platform values\<close>

text \<open>
  The parser of \<^verbatim>\<open>.sav\<close> files reads an \<^verbatim>\<open>ArrayBuffer\<close> through a cursor
  (\<^verbatim>\<open>Feeder\<close>), decodes the file header, the field dictionary and the internal
  records (\<^verbatim>\<open>SavParser\<close>), and then the case data (\<^verbatim>\<open>DataReader\<close>).

  Conventions of the model.
  \<^item> A JavaScript number that holds a position, a size, a count or an Int32 read from the
    file is an \<^typ>\<open>int\<close>. This is exact as long as the magnitude stays below \<open>2 ^ 53\<close>.
  \<^item> A double read from the file is kept as its IEEE-754 bit pattern (a \<open>64 word\<close>);
    the one double subtraction of the program, \<^verbatim>\<open>code - bias\<close>, is kept symbolic.
  \<^item> A string is the list of its UTF-8 bytes, so that \<^verbatim>\<open>TextDecoder.decode\<close> maps a
    byte to the character of the same code. This is exact on well-formed input without a
    byte-order mark; \<^verbatim>\<open>trim\<close> strips the ASCII white space.
    Outside this range the program differs from the model: the decoder drops a leading
    \<^verbatim>\<open>EF BB BF\<close> and replaces an invalid or split sequence by U+FFFD,
    \<^verbatim>\<open>String.prototype.trim\<close> also strips Unicode white space, \<^verbatim>\<open>substring\<close> counts
    UTF-16 code units, and \<^verbatim>\<open>parseInt\<close> rounds to a double above \<open>2 ^ 53\<close>. The
    level table of a scale keeps every entry that is read, in order, where \<^verbatim>\<open>Map\<close> and
    \<^verbatim>\<open>Set\<close> merge equal keys. The theorems below depend on the text of a string only
    through the comparison with the signature \<^verbatim>\<open>$FL2\<close>, which is exact.
  \<^item> A \<^verbatim>\<open>throw\<close> is the value \<open>Inl (e, s)\<close>, where \<open>s\<close> is the state at the throw;
    a normal return is \<open>Inr (v, s)\<close>.
  \<^item> The diagnostic \<^verbatim>\<open>log\<close> array is only ever appended to and never read by the
    parser; it is left out.
\<close>

type_synonym byte = "8 word"

datatype error =
    JumpOutOfBounds
  | UnexpectedEndOfFile
  | UnexpectedEndOfRecords
  | CellCodeTypeMismatch
  | DefaultCodeNotSupported
  | LevelsReadError int
  | SpecialCode3 int
  | SpecialCode4 int
  | SpecialCode11Bytes int
  | SpecialCode11Factor int
  | InternalCode int
  | FileIsNotASav string string
  | RangeError
  | TypeError

type_synonym ('a, 's) result = "error \<times> 's + 'a \<times> 's"

datatype number =
    F64 "64 word"
  | CodeMinus nat number

text \<open>\<^verbatim>\<open>ArrayBuffer.prototype.slice(begin, end)\<close>: negative indices count from the end,
  both are clamped to the buffer, and an empty range gives an empty buffer.\<close>

definition slice_buf :: "byte list \<Rightarrow> int \<Rightarrow> int \<Rightarrow> byte list" where
  "slice_buf buf b e =
     (let len = int (length buf);
          first = (if b < 0 then max (len + b) 0 else min b len);
          final = (if e < 0 then max (len + e) 0 else min e len)
      in take (nat (final - first)) (drop (nat first) buf))"

text \<open>The unsigned value of a byte sequence, least significant byte first.\<close>

definition uint_le :: "byte list \<Rightarrow> int" where
  "uint_le bs = foldr (\<lambda>b acc. uint b + 256 * acc) bs 0"

definition to_signed :: "nat \<Rightarrow> int \<Rightarrow> int" where
  "to_signed w u = (if u \<ge> 2 ^ (w - 1) then u - 2 ^ w else u)"

text \<open>\<^verbatim>\<open>DataView\<close> reads; a read outside the view throws a \<^verbatim>\<open>RangeError\<close>.\<close>

definition view_bytes :: "byte list \<Rightarrow> int \<Rightarrow> nat \<Rightarrow> error + byte list" where
  "view_bytes view off n =
     (if 0 \<le> off \<and> off + int n \<le> int (length view)
      then Inr (take n (drop (nat off) view)) else Inl RangeError)"

definition getUint8 :: "byte list \<Rightarrow> int \<Rightarrow> error + nat" where
  "getUint8 view off =
     (case view_bytes view off 1 of Inl e \<Rightarrow> Inl e | Inr bs \<Rightarrow> Inr (nat (uint_le bs)))"

definition getInt8 :: "byte list \<Rightarrow> int \<Rightarrow> error + int" where
  "getInt8 view off =
     (case view_bytes view off 1 of Inl e \<Rightarrow> Inl e | Inr bs \<Rightarrow> Inr (to_signed 8 (uint_le bs)))"

text \<open>Every \<^verbatim>\<open>getInt32\<close> of the program passes \<^verbatim>\<open>littleEndian = true\<close>.\<close>

definition getInt32 :: "byte list \<Rightarrow> int \<Rightarrow> error + int" where
  "getInt32 view off =
     (case view_bytes view off 4 of Inl e \<Rightarrow> Inl e | Inr bs \<Rightarrow> Inr (to_signed 32 (uint_le bs)))"

definition getFloat64 :: "byte list \<Rightarrow> int \<Rightarrow> bool \<Rightarrow> error + number" where
  "getFloat64 view off littleEndian =
     (case view_bytes view off 8 of
        Inl e \<Rightarrow> Inl e
      | Inr bs \<Rightarrow> Inr (F64 (word_of_int (uint_le (if littleEndian then bs else rev bs)))))"

definition decode :: "byte list \<Rightarrow> string" where
  "decode bs = map (\<lambda>b. char_of (unat b)) bs"

definition is_space :: "char \<Rightarrow> bool" where
  "is_space c = (of_char c \<in> {9, 10, 11, 12, 13, 32 :: nat})"

definition trim :: "string \<Rightarrow> string" where
  "trim s = rev (dropWhile is_space (rev (dropWhile is_space s)))"

text \<open>\<^verbatim>\<open>Math.ceil(n / 8)\<close> and the remainder \<^verbatim>\<open>a % b\<close> (sign of the dividend).\<close>

definition ceil8 :: "int \<Rightarrow> int" where
  "ceil8 n = - ((- n) div 8)"

definition js_rem :: "int \<Rightarrow> int \<Rightarrow> int" where
  "js_rem a b = sgn a * (\<bar>a\<bar> mod \<bar>b\<bar>)"

text \<open>A \<^verbatim>\<open>Map\<close> keeps its keys in insertion order; setting a key that is present
  replaces its value in place.\<close>

fun Map_set :: "('k \<times> 'v) list \<Rightarrow> 'k \<Rightarrow> 'v \<Rightarrow> ('k \<times> 'v) list" where
  "Map_set [] k v = [(k, v)]"
| "Map_set (p # ps) k v = (if fst p = k then (k, v) # ps else p # Map_set ps k v)"

definition new_Map :: "('k \<times> 'v) list \<Rightarrow> ('k \<times> 'v) list" where
  "new_Map entries = foldl (\<lambda>m (k, v). Map_set m k v) [] entries"

section \<open>Feeder\<close>

text \<open>The buffer of a feeder is always an \<^verbatim>\<open>ArrayBuffer\<close>, so the test \<^verbatim>\<open>!this.buffer\<close> of
  \<^verbatim>\<open>next\<close> never holds; what is left of the guard is the comparison with the length.\<close>

record Feeder =
  buffer :: "byte list"
  cursor :: int

definition new_Feeder :: "byte list \<Rightarrow> Feeder" where
  "new_Feeder buf = \<lparr>buffer = buf, cursor = 0\<rparr>"

definition jump :: "Feeder \<Rightarrow> int \<Rightarrow> (unit, Feeder) result" where
  "jump f p =
     (if p < 0 \<or> p > int (length (buffer f)) then Inl (JumpOutOfBounds, f)
      else Inr ((), f\<lparr>cursor := p\<rparr>))"

definition feeder_next :: "Feeder \<Rightarrow> int \<Rightarrow> (byte list, Feeder) result" where
  "feeder_next f n =
     (if cursor f + n > int (length (buffer f)) then Inl (UnexpectedEndOfFile, f)
      else (let f' = f\<lparr>cursor := cursor f + n\<rparr>
            in Inr (slice_buf (buffer f') (cursor f' - n) (cursor f'), f')))"

definition position :: "Feeder \<Rightarrow> int" where
  "position f = cursor f"

definition feeder_done :: "Feeder \<Rightarrow> bool" where
  "feeder_done f = (cursor f = int (length (buffer f)))"

section \<open>The data model\<close>

record Meta =
  m_product :: string
  m_layout :: int
  m_variables :: int
  m_compression :: int
  m_weightIndex :: int
  m_cases :: int
  m_bias :: number
  m_createdDate :: string
  m_createdTime :: string
  m_label :: string

text \<open>The \<^verbatim>\<open>range\<close> of a field without a missing range is \<^verbatim>\<open>[undefined, undefined]\<close>:
  here \<open>None\<close>.\<close>

record Missing =
  mv_codes :: "number list"
  mv_range :: "(number \<times> number) option"
  mv_strings :: "string list"

record Header =
  h_start :: int
  h_code :: int
  h_name :: string
  h_label :: string
  h_missing :: Missing
  h_trailers :: int

text \<open>A \<^verbatim>\<open>Scale\<close> holds a \<^verbatim>\<open>Map\<close> keyed by doubles and a \<^verbatim>\<open>Set\<close> of indices; the model
  keeps the entries in the order in which they are handed to the two constructors.\<close>

record Scale =
  sc_map :: "(number \<times> string) list"
  sc_indices :: "int list"

record Display =
  d_type :: int
  d_width :: int
  d_align :: int

record SysInteger =
  si_major :: int
  si_minor :: int
  si_revision :: int
  si_machine :: int
  si_float :: int
  si_compression :: int
  si_endianness :: int
  si_character :: int

record SysFloat =
  sf_missing :: number
  sf_high :: number
  sf_low :: number

text \<open>\<^verbatim>\<open>Internal\<close>: the \<^verbatim>\<open>float\<close> and \<^verbatim>\<open>integer\<close> objects have all their properties
  \<^verbatim>\<open>undefined\<close> when the file has no such record; here \<open>None\<close>.\<close>

record Internal =
  i_float :: "SysFloat option"
  i_integer :: "SysInteger option"
  i_display :: "Display list"
  i_documents :: "string list"
  i_names :: "(string \<times> string option) list"
  i_longs :: "(string \<times> int option) list"
  i_levels :: "Scale list"
  i_extra :: "byte list list"
  i_unrecognized :: "(int \<times> byte list list) list"
  i_finished :: int

record Schema =
  s_meta :: Meta
  s_headers :: "Header list"
  s_internal :: Internal

datatype cell = CellNumber number | CellString string | CellNull

type_synonym Row = "(string \<times> cell) list"

section \<open>DataReader\<close>

text \<open>The reader's \<^verbatim>\<open>schema\<close> never changes and is passed as an argument; its
  \<^verbatim>\<open>instructions\<close> view is \<^verbatim>\<open>undefined\<close> (\<open>None\<close>) until the first block is fetched.\<close>

record DataReader =
  dr_feeder :: Feeder
  dr_position :: int
  dr_instructions :: "byte list option"
  dr_cursor :: int

definition new_DataReader :: "Feeder \<Rightarrow> DataReader" where
  "new_DataReader f =
     \<lparr>dr_feeder = f, dr_position = position f, dr_instructions = None, dr_cursor = 8\<rparr>"

definition remaining :: "Feeder \<Rightarrow> nat" where
  "remaining f = nat (int (length (buffer f)) - cursor f)"

definition reader_size :: "DataReader \<Rightarrow> nat" where
  "reader_size r = 9 * remaining (dr_feeder r) + nat (8 - dr_cursor r)"

lemma feeder_next_8_remaining:
  "feeder_next f 8 = Inr (chunk, f') \<Longrightarrow> remaining f' + 8 = remaining f"
  by (auto simp: feeder_next_def remaining_def Let_def split: if_splits)

function compressedCodes :: "DataReader \<Rightarrow> (nat, DataReader) result" where
  "compressedCodes r =
     (case (if dr_cursor r > 7
            then (case feeder_next (dr_feeder r) 8 of
                    Inl (e, f') \<Rightarrow> Inl (e, r\<lparr>dr_feeder := f'\<rparr>)
                  | Inr (chunk, f') \<Rightarrow>
                      Inr (r\<lparr>dr_feeder := f', dr_instructions := Some chunk, dr_cursor := 0\<rparr>))
            else Inr r) of
        Inl er \<Rightarrow> Inl er
      | Inr r1 \<Rightarrow>
          (case dr_instructions r1 of
             None \<Rightarrow> Inl (TypeError, r1)
           | Some view \<Rightarrow>
               (let r2 = r1\<lparr>dr_cursor := dr_cursor r1 + 1\<rparr>
                in case getUint8 view (dr_cursor r1) of
                     Inl e \<Rightarrow> Inl (e, r2)
                   | Inr instruction \<Rightarrow>
                       if instruction = 0 then compressedCodes r2 else Inr (instruction, r2))))"
  by pat_completeness auto
termination
proof (relation "measure reader_size", goal_cases)
  case 1
  show ?case by simp
next
  case (2 r r1 view r2 instruction)
  show ?case
  proof (cases "dr_cursor r > 7")
    case True
    with 2 obtain chunk f' where nx: "feeder_next (dr_feeder r) 8 = Inr (chunk, f')"
      and r1: "r1 = r\<lparr>dr_feeder := f', dr_instructions := Some chunk, dr_cursor := 0\<rparr>"
      by (auto split: sum.splits prod.splits)
    from feeder_next_8_remaining [OF nx] r1 2 True show ?thesis
      by (simp add: reader_size_def)
  next
    case False
    with 2 have r1: "r1 = r" by simp
    from 2 have "0 \<le> dr_cursor r1"
      by (auto simp: getUint8_def view_bytes_def split: if_splits sum.splits)
    with 2 r1 False show ?thesis
      by (simp add: reader_size_def)
  qed
qed

declare compressedCodes.simps [simp del]

lemma compressedCodes_size:
  "compressedCodes r = Inr (c, r') \<Longrightarrow> reader_size r' < reader_size r"
proof (induction r rule: compressedCodes.induct)
  case (1 r)
  note eq = compressedCodes.simps [of r]
  show ?case
  proof (cases "dr_cursor r > 7")
    case True
    show ?thesis
    proof (cases "feeder_next (dr_feeder r) 8")
      case (Inl ef)
      with "1.prems" True show ?thesis by (simp add: eq split: prod.splits)
    next
      case (Inr cf)
      obtain chunk f' where cf: "cf = (chunk, f')" by (cases cf)
      note nx = Inr [unfolded cf]
      let ?r1 = "r\<lparr>dr_feeder := f', dr_instructions := Some chunk, dr_cursor := 0\<rparr>"
      let ?r2 = "r\<lparr>dr_feeder := f', dr_instructions := Some chunk, dr_cursor := 1\<rparr>"
      have lt: "reader_size ?r2 < reader_size r"
        using feeder_next_8_remaining [OF nx] True
        by (simp add: reader_size_def)
      show ?thesis
      proof (cases "getUint8 chunk 0")
        case (Inl e)
        with "1.prems" True nx show ?thesis by (simp add: eq Let_def)
      next
        case g: (Inr instruction)
        with "1.prems" True nx
        have res: "(if instruction = 0 then compressedCodes ?r2 else Inr (instruction, ?r2))
           = Inr (c, r')"
          by (simp add: eq Let_def)
        show ?thesis
        proof (cases "instruction = 0")
          case z: True
          have "reader_size r' < reader_size ?r2"
            using "1.IH" [of ?r1 chunk ?r2 instruction] True nx g z res
            by simp
          with lt show ?thesis by simp
        next
          case False
          with res lt show ?thesis by auto
        qed
      qed
    qed
  next
    case False
    let ?r2 = "r\<lparr>dr_cursor := dr_cursor r + 1\<rparr>"
    show ?thesis
    proof (cases "dr_instructions r")
      case None
      with "1.prems" False show ?thesis by (simp add: eq)
    next
      case v: (Some view)
      show ?thesis
      proof (cases "getUint8 view (dr_cursor r)")
        case (Inl e)
        with "1.prems" False v show ?thesis by (simp add: eq Let_def)
      next
        case g: (Inr instruction)
        with "1.prems" False v
        have res: "(if instruction = 0 then compressedCodes ?r2 else Inr (instruction, ?r2))
           = Inr (c, r')"
          by (simp add: eq Let_def)
        from g have "0 \<le> dr_cursor r"
          by (auto simp: getUint8_def view_bytes_def split: if_splits)
        with False have lt: "reader_size ?r2 < reader_size r"
          by (simp add: reader_size_def)
        show ?thesis
        proof (cases "instruction = 0")
          case z: True
          have "reader_size r' < reader_size ?r2"
            using "1.IH" [of r view ?r2 instruction] False v g z res
            by simp
          with lt show ?thesis by simp
        next
          case False
          with res lt show ?thesis by auto
        qed
      qed
    qed
  qed
qed

definition uncompressedNumber :: "Schema \<Rightarrow> DataReader \<Rightarrow> (cell, DataReader) result" where
  "uncompressedNumber schema r =
     (case feeder_next (dr_feeder r) 8 of
        Inl (e, f') \<Rightarrow> Inl (e, r\<lparr>dr_feeder := f'\<rparr>)
      | Inr (chunk, f') \<Rightarrow>
          (case getFloat64 chunk 0
                  (case i_integer (s_internal schema) of
                     None \<Rightarrow> False
                   | Some si \<Rightarrow> si_endianness si = 2) of
             Inl e \<Rightarrow> Inl (e, r\<lparr>dr_feeder := f'\<rparr>)
           | Inr v \<Rightarrow> Inr (CellNumber v, r\<lparr>dr_feeder := f'\<rparr>)))"

text \<open>The loop of \<^verbatim>\<open>uncompressedString\<close>. \<^verbatim>\<open>pieces.concat(...)\<close> builds a new array and
  leaves \<^verbatim>\<open>pieces\<close> as it is; the new array is dropped.\<close>

function uncompressedString_loop ::
  "DataReader \<Rightarrow> int \<Rightarrow> string list \<Rightarrow> (cell, DataReader) result" where
  "uncompressedString_loop r len pieces =
     (case feeder_next (dr_feeder r) 8 of
        Inl (e, f') \<Rightarrow> Inl (e, r\<lparr>dr_feeder := f'\<rparr>)
      | Inr (chunk, f') \<Rightarrow>
          (let dropped = pieces @ [decode chunk]
           in if len - 1 \<noteq> 0 then uncompressedString_loop (r\<lparr>dr_feeder := f'\<rparr>) (len - 1) pieces
              else Inr (CellString (concat pieces), r\<lparr>dr_feeder := f'\<rparr>)))"
  by pat_completeness auto
termination
proof (relation "measure (\<lambda>(r, len, pieces). reader_size r)", goal_cases)
  case 1
  show ?case by simp
next
  case (2 r len pieces x2 chunk f' dropped)
  from 2 have "feeder_next (dr_feeder r) 8 = Inr (chunk, f')" by simp
  from feeder_next_8_remaining [OF this] show ?case
    by (simp add: reader_size_def)
qed

declare uncompressedString_loop.simps [simp del]

definition uncompressedString :: "DataReader \<Rightarrow> int \<Rightarrow> (cell, DataReader) result" where
  "uncompressedString r len = uncompressedString_loop r len []"

definition compressedNumber :: "Schema \<Rightarrow> DataReader \<Rightarrow> (cell, DataReader) result" where
  "compressedNumber schema r =
     (case compressedCodes r of
        Inl er \<Rightarrow> Inl er
      | Inr (code, r1) \<Rightarrow>
          if code = 252 then Inl (UnexpectedEndOfRecords, r1)
          else if code = 253 then
            (case feeder_next (dr_feeder r1) 8 of
               Inl (e, f') \<Rightarrow> Inl (e, r1\<lparr>dr_feeder := f'\<rparr>)
             | Inr (chunk, f') \<Rightarrow>
                 (case getFloat64 chunk 0 True of
                    Inl e \<Rightarrow> Inl (e, r1\<lparr>dr_feeder := f'\<rparr>)
                  | Inr v \<Rightarrow> Inr (CellNumber v, r1\<lparr>dr_feeder := f'\<rparr>)))
          else if code = 254 then Inl (CellCodeTypeMismatch, r1)
          else if code = 255 then Inr (CellNull, r1)
          else Inr (CellNumber (CodeMinus code (m_bias (s_meta schema))), r1))"

function compressedString_loop ::
  "DataReader \<Rightarrow> int \<Rightarrow> string list \<Rightarrow> (cell, DataReader) result" where
  "compressedString_loop r len pieces =
     (case compressedCodes r of
        Inl er \<Rightarrow> Inl er
      | Inr (code, r1) \<Rightarrow>
          if code = 252 then Inl (UnexpectedEndOfRecords, r1)
          else if code = 253 then
            (case feeder_next (dr_feeder r1) 8 of
               Inl (e, f') \<Rightarrow> Inl (e, r1\<lparr>dr_feeder := f'\<rparr>)
             | Inr (chunk, f') \<Rightarrow>
                 if len - 1 \<noteq> 0
                 then compressedString_loop (r1\<lparr>dr_feeder := f'\<rparr>) (len - 1)
                        (pieces @ [decode chunk])
                 else Inr (CellString (concat (pieces @ [decode chunk])), r1\<lparr>dr_feeder := f'\<rparr>))
          else if code = 254 then
            (if len - 1 \<noteq> 0 then compressedString_loop r1 (len - 1) (pieces @ [[]])
             else Inr (CellString (concat (pieces @ [[]])), r1))
          else if code = 255 then Inr (CellNull, r1)
          else Inl (DefaultCodeNotSupported, r1))"
  by pat_completeness auto
termination
proof (relation "measure (\<lambda>(r, len, pieces). reader_size r)", goal_cases)
  case 1
  show ?case by simp
next
  case (2 r len pieces x2 code r1 x2a chunk f')
  from 2 have "compressedCodes r = Inr (code, r1)" by simp
  from compressedCodes_size [OF this] feeder_next_8_remaining [of "dr_feeder r1" chunk f'] 2
  show ?case by (simp add: reader_size_def)
next
  case (3 r len pieces x2 code r1)
  from 3 have "compressedCodes r = Inr (code, r1)" by simp
  from compressedCodes_size [OF this] show ?case by simp
qed

declare compressedString_loop.simps [simp del]

definition compressedString :: "DataReader \<Rightarrow> int \<Rightarrow> (cell, DataReader) result" where
  "compressedString r len = compressedString_loop r len []"

definition readNumber :: "Schema \<Rightarrow> DataReader \<Rightarrow> (cell, DataReader) result" where
  "readNumber schema r =
     (if m_compression (s_meta schema) \<noteq> 0 then compressedNumber schema r
      else uncompressedNumber schema r)"

definition readString :: "Schema \<Rightarrow> DataReader \<Rightarrow> int \<Rightarrow> (cell, DataReader) result" where
  "readString schema r len =
     (if m_compression (s_meta schema) \<noteq> 0 then compressedString r len
      else uncompressedString r len)"

definition readCell :: "Schema \<Rightarrow> DataReader \<Rightarrow> Header \<Rightarrow> (cell, DataReader) result" where
  "readCell schema r header =
     (if h_code header \<noteq> 0 then readString schema r (ceil8 (h_code header))
      else readNumber schema r)"

text \<open>\<^verbatim>\<open>readRow\<close>: the cells of the headers, left to right, collected into a \<^verbatim>\<open>Map\<close>.\<close>

fun readCells ::
  "Schema \<Rightarrow> Header list \<Rightarrow> DataReader \<Rightarrow> ((string \<times> cell) list, DataReader) result" where
  "readCells schema [] r = Inr ([], r)"
| "readCells schema (header # hs) r =
     (case readCell schema r header of
        Inl er \<Rightarrow> Inl er
      | Inr (v, r1) \<Rightarrow>
          (case readCells schema hs r1 of
             Inl er \<Rightarrow> Inl er
           | Inr (vs, r2) \<Rightarrow> Inr ((h_name header, v) # vs, r2)))"

definition readRow :: "Schema \<Rightarrow> DataReader \<Rightarrow> (Row, DataReader) result" where
  "readRow schema r =
     (case readCells schema (s_headers schema) r of
        Inl er \<Rightarrow> Inl er
      | Inr (entries, r') \<Rightarrow> Inr (new_Map entries, r'))"

text \<open>The \<^verbatim>\<open>map\<close> callback of \<^verbatim>\<open>read\<close> runs once per index, in index order.\<close>

fun readRows :: "Schema \<Rightarrow> nat \<Rightarrow> DataReader \<Rightarrow> (Row list, DataReader) result" where
  "readRows schema 0 r = Inr ([], r)"
| "readRows schema (Suc n) r =
     (case readRow schema r of
        Inl er \<Rightarrow> Inl er
      | Inr (row, r1) \<Rightarrow>
          (case readRows schema n r1 of
             Inl er \<Rightarrow> Inl er
           | Inr (rows, r2) \<Rightarrow> Inr (row # rows, r2)))"

text \<open>\<^verbatim>\<open>new Array(cases)\<close> throws a \<^verbatim>\<open>RangeError\<close> for a negative length.\<close>

definition read :: "Schema \<Rightarrow> DataReader \<Rightarrow> (Row list, DataReader) result" where
  "read schema r =
     (case jump (dr_feeder r) (i_finished (s_internal schema)) of
        Inl (e, f') \<Rightarrow> Inl (e, r\<lparr>dr_feeder := f'\<rparr>)
      | Inr (u, f') \<Rightarrow>
          if m_cases (s_meta schema) < 0 then Inl (RangeError, r\<lparr>dr_feeder := f'\<rparr>)
          else
            (case readRows schema (nat (m_cases (s_meta schema))) (r\<lparr>dr_feeder := f'\<rparr>) of
               Inl er \<Rightarrow> Inl er
             | Inr (readArray, r2) \<Rightarrow>
                 (case jump (dr_feeder r2) (dr_position r2) of
                    Inl (e, f2) \<Rightarrow> Inl (e, r2\<lparr>dr_feeder := f2\<rparr>)
                  | Inr (u2, f2) \<Rightarrow> Inr (readArray, r2\<lparr>dr_feeder := f2\<rparr>))))"

section \<open>SavParser: the field dictionary\<close>

text \<open>Sequencing of reads that may throw: the first error wins.\<close>

definition bind_e :: "error + 'a \<Rightarrow> ('a \<Rightarrow> error + 'b) \<Rightarrow> error + 'b" where
  "bind_e x k = (case x of Inl e \<Rightarrow> Inl e | Inr v \<Rightarrow> k v)"

fun collect :: "(error + 'a) list \<Rightarrow> error + 'a list" where
  "collect [] = Inr []"
| "collect (x # xs) =
     (case x of
        Inl e \<Rightarrow> Inl e
      | Inr v \<Rightarrow> (case collect xs of Inl e \<Rightarrow> Inl e | Inr vs \<Rightarrow> Inr (v # vs)))"

text \<open>\<^verbatim>\<open>new Array(count).fill(0).map((_, idx) => g(idx))\<close>: a \<^verbatim>\<open>RangeError\<close> for a negative
  count, otherwise the results for the indices \<open>0, ..., count - 1\<close> in this order.\<close>

definition array_map :: "int \<Rightarrow> (int \<Rightarrow> error + 'a) \<Rightarrow> error + 'a list" where
  "array_map count g =
     (if count < 0 then Inl RangeError else collect (map (\<lambda>idx. g (int idx)) [0..<nat count]))"

definition readFieldLabel :: "Feeder \<Rightarrow> (string, Feeder) result" where
  "readFieldLabel f =
     (case feeder_next f 4 of
        Inl ef \<Rightarrow> Inl ef
      | Inr (chunk, f1) \<Rightarrow>
          (case getInt32 chunk 0 of
             Inl e \<Rightarrow> Inl (e, f1)
           | Inr len0 \<Rightarrow>
               (let len = (if js_rem len0 4 \<noteq> 0 then len0 + (4 - js_rem len0 4) else len0)
                in case feeder_next f1 len of
                     Inl ef \<Rightarrow> Inl ef
                   | Inr (text, f2) \<Rightarrow> Inr (trim (decode text), f2))))"

text \<open>\<^verbatim>\<open>view.getFloat64(8 * idx)\<close> has no \<^verbatim>\<open>littleEndian\<close> argument: the read is
  big-endian.\<close>

definition readFieldMissingCodes :: "byte list \<Rightarrow> int \<Rightarrow> error + number list" where
  "readFieldMissingCodes view count = array_map count (\<lambda>idx. getFloat64 view (8 * idx) False)"

definition readFieldMissingStrings :: "byte list \<Rightarrow> int \<Rightarrow> error + string list" where
  "readFieldMissingStrings chunk count =
     array_map count (\<lambda>idx. Inr (decode (slice_buf chunk (8 * idx) (8 * idx + 8))))"

definition readFieldMissingRange :: "byte list \<Rightarrow> error + number \<times> number" where
  "readFieldMissingRange view =
     bind_e (getFloat64 view 0 True) (\<lambda>low.
     bind_e (getFloat64 view 8 True) (\<lambda>high. Inr (low, high)))"

definition readFieldMissing :: "Feeder \<Rightarrow> bool \<Rightarrow> int \<Rightarrow> (Missing, Feeder) result" where
  "readFieldMissing f numeric code =
     (case feeder_next f (8 * \<bar>code\<bar>) of
        Inl ef \<Rightarrow> Inl ef
      | Inr (chunk, f1) \<Rightarrow>
          (case
             bind_e (if numeric \<and> code > 0 then readFieldMissingCodes chunk code
                     else if numeric \<and> code = - 3
                          then bind_e (readFieldMissingCodes chunk 3) (\<lambda>cs. Inr (drop 2 cs))
                          else Inr []) (\<lambda>codes.
             bind_e (if numeric \<and> code < 0
                     then bind_e (readFieldMissingRange chunk) (\<lambda>lh. Inr (Some lh))
                     else Inr None) (\<lambda>range.
             bind_e (if \<not> numeric \<and> code > 0 then readFieldMissingStrings chunk code
                     else Inr []) (\<lambda>strings.
             Inr \<lparr>mv_codes = codes, mv_range = range, mv_strings = strings\<rparr>))) of
             Inl e \<Rightarrow> Inl (e, f1)
           | Inr missing \<Rightarrow> Inr (missing, f1)))"

definition no_missing :: Missing where
  "no_missing = \<lparr>mv_codes = [], mv_range = None, mv_strings = []\<rparr>"

definition readField :: "Feeder \<Rightarrow> (Header, Feeder) result" where
  "readField f =
     (let start = position f in
      case feeder_next f 28 of
        Inl ef \<Rightarrow> Inl ef
      | Inr (chunk, f1) \<Rightarrow>
          (case bind_e (getInt32 chunk 0) (\<lambda>code.
                bind_e (getInt32 chunk 4) (\<lambda>labeled.
                bind_e (getInt32 chunk 8) (\<lambda>missings. Inr (code, labeled, missings)))) of
             Inl e \<Rightarrow> Inl (e, f1)
           | Inr (code, labeled, missings) \<Rightarrow>
               (let name = trim (decode (slice_buf chunk 20 28)) in
                case (if labeled \<noteq> 0 then readFieldLabel f1 else Inr ([], f1)) of
                  Inl ef \<Rightarrow> Inl ef
                | Inr (label, f2) \<Rightarrow>
                    (case (if missings \<noteq> 0 then readFieldMissing f2 (code = 0) missings
                           else Inr (no_missing, f2)) of
                       Inl ef \<Rightarrow> Inl ef
                     | Inr (missing, f3) \<Rightarrow>
                         Inr (\<lparr>h_start = start, h_code = code, h_name = name, h_label = label,
                               h_missing = missing, h_trailers = 0\<rparr>, f3)))))"

text \<open>\<^verbatim>\<open>fields[fields.length - 1].trailers++\<close>: a \<^verbatim>\<open>TypeError\<close> on the empty array.\<close>

definition bump_trailers :: "Header list \<Rightarrow> error + Header list" where
  "bump_trailers hdrs =
     (if hdrs = [] then Inl TypeError
      else Inr (butlast hdrs @ [(last hdrs)\<lparr>h_trailers := h_trailers (last hdrs) + 1\<rparr>]))"

text \<open>The loop of \<^verbatim>\<open>readFields\<close>. A label of negative length moves the cursor backwards,
  so the loop need not end: \<open>None\<close> is the run that never returns.\<close>

partial_function (option) readFields_loop ::
  "Feeder \<Rightarrow> Header list \<Rightarrow> (Header list, Feeder) result option" where
  "readFields_loop f hdrs =
     (case feeder_next f 4 of
        Inl ef \<Rightarrow> Some (Inl ef)
      | Inr (chunk, f1) \<Rightarrow>
          (case getInt32 chunk 0 of
             Inl e \<Rightarrow> Some (Inl (e, f1))
           | Inr code \<Rightarrow>
               if code \<noteq> 2 then
                 (case jump f1 (position f1 - 4) of
                    Inl ef \<Rightarrow> Some (Inl ef)
                  | Inr (u, f2) \<Rightarrow> Some (Inr (hdrs, f2)))
               else
                 (case readField f1 of
                    Inl ef \<Rightarrow> Some (Inl ef)
                  | Inr (field, f2) \<Rightarrow>
                      if h_code field > - 1 then readFields_loop f2 (hdrs @ [field])
                      else (case bump_trailers hdrs of
                              Inl e \<Rightarrow> Some (Inl (e, f2))
                            | Inr hdrs' \<Rightarrow> readFields_loop f2 hdrs'))))"

definition readFields :: "Feeder \<Rightarrow> (Header list, Feeder) result option" where
  "readFields f = readFields_loop f []"

section \<open>SavParser: the internal records\<close>

definition getLevel :: "Feeder \<Rightarrow> (number \<times> string, Feeder) result" where
  "getLevel f =
     (case feeder_next f 9 of
        Inl ef \<Rightarrow> Inl ef
      | Inr (view, f1) \<Rightarrow>
          (case bind_e (getInt8 view 8) (\<lambda>len.
                bind_e (getFloat64 view 0 True) (\<lambda>key. Inr (len, key))) of
             Inl e \<Rightarrow> Inl (e, f1)
           | Inr (len, key) \<Rightarrow>
               (let sz = (if js_rem (len + 1) 8 \<noteq> 0 then len + (8 - js_rem (len + 1) 8) else len)
                in case feeder_next f1 sz of
                     Inl ef \<Rightarrow> Inl ef
                   | Inr (text, f2) \<Rightarrow> Inr ((key, trim (take (nat len) (decode text))), f2))))"

fun getLevels :: "nat \<Rightarrow> Feeder \<Rightarrow> ((number \<times> string) list, Feeder) result" where
  "getLevels 0 f = Inr ([], f)"
| "getLevels (Suc n) f =
     (case getLevel f of
        Inl ef \<Rightarrow> Inl ef
      | Inr (level, f1) \<Rightarrow>
          (case getLevels n f1 of
             Inl ef \<Rightarrow> Inl ef
           | Inr (levels, f2) \<Rightarrow> Inr (level # levels, f2)))"

definition readScale :: "Feeder \<Rightarrow> (Scale, Feeder) result" where
  "readScale f =
     (case feeder_next f 4 of
        Inl ef \<Rightarrow> Inl ef
      | Inr (chunk, f1) \<Rightarrow>
          (case getInt32 chunk 0 of
             Inl e \<Rightarrow> Inl (e, f1)
           | Inr count \<Rightarrow>
               if count < 0 then Inl (RangeError, f1)
               else
                 (case getLevels (nat count) f1 of
                    Inl ef \<Rightarrow> Inl ef
                  | Inr (levels, f2) \<Rightarrow>
                      (case feeder_next f2 8 of
                         Inl ef \<Rightarrow> Inl ef
                       | Inr (view, f3) \<Rightarrow>
                           (case bind_e (getInt32 view 0) (\<lambda>magic.
                                 bind_e (getInt32 view 4) (\<lambda>icount. Inr (magic, icount))) of
                              Inl e \<Rightarrow> Inl (e, f3)
                            | Inr (magic, icount) \<Rightarrow>
                                if magic \<noteq> 4 then Inl (LevelsReadError magic, f3)
                                else
                                  (case feeder_next f3 (4 * icount) of
                                     Inl ef \<Rightarrow> Inl ef
                                   | Inr (iview, f4) \<Rightarrow>
                                       (case array_map icount (\<lambda>idx. getInt32 iview (idx * 4)) of
                                          Inl e \<Rightarrow> Inl (e, f4)
                                        | Inr indices \<Rightarrow>
                                            Inr (\<lparr>sc_map = levels, sc_indices = indices\<rparr>,
                                                 f4))))))))"

definition readDocument :: "Feeder \<Rightarrow> (string list, Feeder) result" where
  "readDocument f =
     (case feeder_next f 4 of
        Inl ef \<Rightarrow> Inl ef
      | Inr (view, f1) \<Rightarrow>
          (case getInt32 view 0 of
             Inl e \<Rightarrow> Inl (e, f1)
           | Inr count \<Rightarrow>
               (case feeder_next f1 (count * 80) of
                  Inl ef \<Rightarrow> Inl ef
                | Inr (chunk, f2) \<Rightarrow>
                    (case array_map count
                            (\<lambda>idx. Inr (decode (slice_buf chunk (idx * 80) (idx * 80 + 80)))) of
                       Inl e \<Rightarrow> Inl (e, f2)
                     | Inr lines \<Rightarrow> Inr (lines, f2)))))"

definition readSysInteger :: "Feeder \<Rightarrow> (SysInteger, Feeder) result" where
  "readSysInteger f =
     (case feeder_next f 32 of
        Inl ef \<Rightarrow> Inl ef
      | Inr (view, f1) \<Rightarrow>
          (case bind_e (getInt32 view 0) (\<lambda>major.
                bind_e (getInt32 view 4) (\<lambda>minor.
                bind_e (getInt32 view 8) (\<lambda>revision.
                bind_e (getInt32 view 12) (\<lambda>machine.
                bind_e (getInt32 view 16) (\<lambda>float.
                bind_e (getInt32 view 20) (\<lambda>compression.
                bind_e (getInt32 view 24) (\<lambda>endianness.
                bind_e (getInt32 view 28) (\<lambda>character.
                Inr \<lparr>si_major = major, si_minor = minor, si_revision = revision,
                     si_machine = machine, si_float = float, si_compression = compression,
                     si_endianness = endianness, si_character = character\<rparr>)))))))) of
             Inl e \<Rightarrow> Inl (e, f1)
           | Inr si \<Rightarrow> Inr (si, f1)))"

definition readSysFloat :: "Feeder \<Rightarrow> (SysFloat, Feeder) result" where
  "readSysFloat f =
     (case feeder_next f 24 of
        Inl ef \<Rightarrow> Inl ef
      | Inr (view, f1) \<Rightarrow>
          (case bind_e (getFloat64 view 0 True) (\<lambda>missing.
                bind_e (getFloat64 view 8 True) (\<lambda>high.
                bind_e (getFloat64 view 16 True) (\<lambda>low.
                Inr \<lparr>sf_missing = missing, sf_high = high, sf_low = low\<rparr>))) of
             Inl e \<Rightarrow> Inl (e, f1)
           | Inr sf \<Rightarrow> Inr (sf, f1)))"

definition readSysDisplay :: "Feeder \<Rightarrow> int \<Rightarrow> (Display list, Feeder) result" where
  "readSysDisplay f count =
     (case feeder_next f (count * 12) of
        Inl ef \<Rightarrow> Inl ef
      | Inr (view, f1) \<Rightarrow>
          (case array_map count (\<lambda>idx.
                  bind_e (getInt32 view (idx * 12)) (\<lambda>type.
                  bind_e (getInt32 view (idx * 12 + 4)) (\<lambda>width.
                  bind_e (getInt32 view (idx * 12 + 8)) (\<lambda>align.
                  Inr \<lparr>d_type = type, d_width = width, d_align = align\<rparr>)))) of
             Inl e \<Rightarrow> Inl (e, f1)
           | Inr ds \<Rightarrow> Inr (ds, f1)))"

text \<open>\<^verbatim>\<open>str.split(c)\<close> for a separator of one character.\<close>

fun split_on :: "char \<Rightarrow> string \<Rightarrow> string list" where
  "split_on c [] = [[]]"
| "split_on c (x # xs) =
     (if x = c then [] # split_on c xs
      else (case split_on c xs of [] \<Rightarrow> [[x]] | p # ps \<Rightarrow> (x # p) # ps))"

text \<open>The entry \<^verbatim>\<open>[key, value]\<close> that \<^verbatim>\<open>new Map\<close> takes from \<^verbatim>\<open>str.split('=')\<close>: its first
  two elements, the second \<^verbatim>\<open>undefined\<close> (\<open>None\<close>) when there is no \<^verbatim>\<open>=\<close>.\<close>

definition key_value :: "string \<Rightarrow> string \<times> string option" where
  "key_value str =
     (case split_on CHR ''='' str of
        [] \<Rightarrow> ([], None)
      | [k] \<Rightarrow> (k, None)
      | k # v # rest \<Rightarrow> (k, Some v))"

definition readNames :: "Feeder \<Rightarrow> int \<Rightarrow> ((string \<times> string option) list, Feeder) result" where
  "readNames f n =
     (case feeder_next f n of
        Inl ef \<Rightarrow> Inl ef
      | Inr (chunk, f1) \<Rightarrow>
          Inr (new_Map (map key_value (split_on (CHR 0x09) (decode chunk))), f1))"

text \<open>\<^verbatim>\<open>parseInt(str, 10)\<close>: leading white space, an optional sign, then decimal digits;
  \<^verbatim>\<open>NaN\<close> (\<open>None\<close>) without a digit, and for \<^verbatim>\<open>undefined\<close>.\<close>

definition is_digit :: "char \<Rightarrow> bool" where
  "is_digit c = (48 \<le> (of_char c :: nat) \<and> (of_char c :: nat) \<le> 57)"

definition parseInt10 :: "string option \<Rightarrow> int option" where
  "parseInt10 so =
     (case so of
        None \<Rightarrow> None
      | Some str \<Rightarrow>
          (let s1 = dropWhile is_space str;
               negative = (s1 \<noteq> [] \<and> hd s1 = CHR ''-'');
               s2 = (if s1 \<noteq> [] \<and> (hd s1 = CHR ''-'' \<or> hd s1 = CHR ''+'') then tl s1 else s1);
               ds = takeWhile is_digit s2;
               v = foldl (\<lambda>a c. 10 * a + (int (of_char c) - 48)) 0 ds
           in if ds = [] then None else Some (if negative then - v else v)))"

definition readLongWidths :: "Feeder \<Rightarrow> int \<Rightarrow> ((string \<times> int option) list, Feeder) result" where
  "readLongWidths f n =
     (case feeder_next f n of
        Inl ef \<Rightarrow> Inl ef
      | Inr (chunk, f1) \<Rightarrow>
          Inr (new_Map (map (\<lambda>str. case key_value str of (name, len) \<Rightarrow> (name, parseInt10 len))
                          (butlast (split_on (CHR 0x09) (decode chunk)))), f1))"

definition readLongNames :: "Feeder \<Rightarrow> int \<Rightarrow> (byte list, Feeder) result" where
  "readLongNames f n = feeder_next f n"

definition readUnrecognized :: "Feeder \<Rightarrow> int \<Rightarrow> int \<Rightarrow> (byte list list, Feeder) result" where
  "readUnrecognized f count len =
     (case feeder_next f (count * len) of
        Inl ef \<Rightarrow> Inl ef
      | Inr (chunk, f1) \<Rightarrow>
          (case array_map count (\<lambda>idx. Inr (slice_buf chunk (idx * len) (idx * len + len))) of
             Inl e \<Rightarrow> Inl (e, f1)
           | Inr slices \<Rightarrow> Inr (slices, f1)))"

text \<open>The \<^verbatim>\<open>partial\<close> object of \<^verbatim>\<open>readInternal\<close> is an \<open>Internal\<close> whose absent arrays and
  maps are empty (each use reads them through \<^verbatim>\<open>?? []\<close>) and whose absent \<^verbatim>\<open>finished\<close> is 0:
  the loop tests \<^verbatim>\<open>!partial.finished\<close>, which holds for \<^verbatim>\<open>undefined\<close> and for 0 alike.\<close>

definition empty_Internal :: Internal where
  "empty_Internal =
     \<lparr>i_float = None, i_integer = None, i_display = [], i_documents = [], i_names = [],
      i_longs = [], i_levels = [], i_extra = [], i_unrecognized = [], i_finished = 0\<rparr>"

text \<open>The tag-7 record, after its 12-byte sub-header has been read.\<close>

definition readExtension :: "Internal \<Rightarrow> Feeder \<Rightarrow> int \<Rightarrow> int \<Rightarrow> int \<Rightarrow> (Internal, Feeder) result"
  where
  "readExtension partial f subcode len count =
     (if subcode = 3 then
        (if len * count \<noteq> 32 then Inl (SpecialCode3 (len * count), f)
         else (case readSysInteger f of
                 Inl ef \<Rightarrow> Inl ef
               | Inr (si, f1) \<Rightarrow> Inr (partial\<lparr>i_integer := Some si\<rparr>, f1)))
      else if subcode = 4 then
        (if len * count \<noteq> 24 then Inl (SpecialCode4 (len * count), f)
         else (case readSysFloat f of
                 Inl ef \<Rightarrow> Inl ef
               | Inr (sf, f1) \<Rightarrow> Inr (partial\<lparr>i_float := Some sf\<rparr>, f1)))
      else if subcode = 11 then
        (if len \<noteq> 4 then Inl (SpecialCode11Bytes len, f)
         else if js_rem count 3 \<noteq> 0 then Inl (SpecialCode11Factor len, f)
         else (case readSysDisplay f (count div 3) of
                 Inl ef \<Rightarrow> Inl ef
               | Inr (ds, f1) \<Rightarrow> Inr (partial\<lparr>i_display := i_display partial @ ds\<rparr>, f1)))
      else if subcode = 13 then
        (case readNames f (count * len) of
           Inl ef \<Rightarrow> Inl ef
         | Inr (names, f1) \<Rightarrow> Inr (partial\<lparr>i_names := new_Map (i_names partial @ names)\<rparr>, f1))
      else if subcode = 14 then
        (case readLongWidths f (count * len) of
           Inl ef \<Rightarrow> Inl ef
         | Inr (longs, f1) \<Rightarrow> Inr (partial\<lparr>i_longs := new_Map (i_longs partial @ longs)\<rparr>, f1))
      else if subcode = 21 then
        (case readLongNames f (count * len) of
           Inl ef \<Rightarrow> Inl ef
         | Inr (blob, f1) \<Rightarrow> Inr (partial\<lparr>i_extra := i_extra partial @ [blob]\<rparr>, f1))
      else
        (case readUnrecognized f count len of
           Inl ef \<Rightarrow> Inl ef
         | Inr (slices, f1) \<Rightarrow>
             Inr (partial\<lparr>i_unrecognized := i_unrecognized partial @ [(subcode, slices)]\<rparr>, f1)))"

text \<open>One turn of the \<^verbatim>\<open>while\<close> loop of \<^verbatim>\<open>readInternal\<close>.\<close>

definition readInternal_step :: "Internal \<Rightarrow> Feeder \<Rightarrow> (Internal, Feeder) result" where
  "readInternal_step partial f =
     (case feeder_next f 4 of
        Inl ef \<Rightarrow> Inl ef
      | Inr (chunk, f1) \<Rightarrow>
          (case getInt32 chunk 0 of
             Inl e \<Rightarrow> Inl (e, f1)
           | Inr code \<Rightarrow>
               if code = 3 then
                 (case readScale f1 of
                    Inl ef \<Rightarrow> Inl ef
                  | Inr (scale, f2) \<Rightarrow> Inr (partial\<lparr>i_levels := i_levels partial @ [scale]\<rparr>, f2))
               else if code = 6 then
                 (case readDocument f1 of
                    Inl ef \<Rightarrow> Inl ef
                  | Inr (lines, f2) \<Rightarrow>
                      Inr (partial\<lparr>i_documents := i_documents partial @ lines\<rparr>, f2))
               else if code = 7 then
                 (case feeder_next f1 12 of
                    Inl ef \<Rightarrow> Inl ef
                  | Inr (subview, f2) \<Rightarrow>
                      (case bind_e (getInt32 subview 0) (\<lambda>subcode.
                            bind_e (getInt32 subview 4) (\<lambda>len.
                            bind_e (getInt32 subview 8) (\<lambda>count. Inr (subcode, len, count)))) of
                         Inl e \<Rightarrow> Inl (e, f2)
                       | Inr (subcode, len, count) \<Rightarrow> readExtension partial f2 subcode len count))
               else if code = 999 then
                 (case feeder_next f1 4 of
                    Inl ef \<Rightarrow> Inl ef
                  | Inr (padding, f2) \<Rightarrow> Inr (partial\<lparr>i_finished := position f2\<rparr>, f2))
               else Inl (InternalCode code, f1)))"

text \<open>The loop. A record of negative size moves the cursor backwards, so the loop need not
  end: \<open>None\<close> is the run that never returns.\<close>

partial_function (option) readInternal_loop ::
  "Internal \<Rightarrow> Feeder \<Rightarrow> (Internal, Feeder) result option" where
  "readInternal_loop partial f =
     (if i_finished partial \<noteq> 0 then Some (Inr (partial, f))
      else (case readInternal_step partial f of
              Inl ef \<Rightarrow> Some (Inl ef)
            | Inr (partial', f') \<Rightarrow> readInternal_loop partial' f'))"

definition readInternal :: "Feeder \<Rightarrow> (Internal, Feeder) result option" where
  "readInternal f = readInternal_loop empty_Internal f"

section \<open>SavParser: the entry points\<close>

text \<open>An entry point either throws before it has a promise to return, or returns a promise
  that is later rejected or resolved. The state is the feeder once the promise has settled.\<close>

datatype 'a settled = Thrown error | Rejected error | Resolved 'a

text \<open>\<^verbatim>\<open>promise.finally(() => feeder.jump(position))\<close>: the jump runs when the promise settles,
  either way; if the jump throws, the result is rejected with its error.\<close>

definition finally_jump :: "int \<Rightarrow> 'a settled \<times> Feeder \<Rightarrow> 'a settled \<times> Feeder" where
  "finally_jump p sf =
     (case sf of
        (Thrown e, f) \<Rightarrow> (Thrown e, f)
      | (outcome, f) \<Rightarrow>
          (case jump f p of
             Inl (e, f') \<Rightarrow> (Rejected e, f')
           | Inr (u, f') \<Rightarrow> (outcome, f')))"

definition meta_fields :: "byte list \<Rightarrow> error + Meta" where
  "meta_fields chunk =
     bind_e (getInt32 chunk 64) (\<lambda>layout.
     bind_e (getInt32 chunk 68) (\<lambda>variables.
     bind_e (getInt32 chunk 72) (\<lambda>compression.
     bind_e (getInt32 chunk 76) (\<lambda>weightIndex.
     bind_e (getInt32 chunk 80) (\<lambda>cases.
     bind_e (getFloat64 chunk 84 True) (\<lambda>bias.
     Inr \<lparr>m_product = trim (decode (slice_buf chunk 4 64)), m_layout = layout,
          m_variables = variables, m_compression = compression, m_weightIndex = weightIndex,
          m_cases = cases, m_bias = bias,
          m_createdDate = decode (slice_buf chunk 92 101),
          m_createdTime = decode (slice_buf chunk 101 109),
          m_label = trim (decode (slice_buf chunk 109 173))\<rparr>))))))"

text \<open>The executor of the promise of \<^verbatim>\<open>meta\<close>. After \<^verbatim>\<open>reject\<close> the executor runs on, but
  nothing it does changes the rejection.\<close>

definition meta_executor :: "Feeder \<Rightarrow> Meta settled \<times> Feeder" where
  "meta_executor f =
     (case feeder_next f 176 of
        Inl (e, f1) \<Rightarrow> (Rejected e, f1)
      | Inr (chunk, f1) \<Rightarrow>
          (let magic = decode (slice_buf chunk 0 4) in
           if magic \<noteq> ''$FL2'' then (Rejected (FileIsNotASav ''$FL2'' magic), f1)
           else (case meta_fields chunk of
                   Inl e \<Rightarrow> (Rejected e, f1)
                 | Inr m \<Rightarrow> (Resolved m, f1))))"

definition meta :: "Feeder \<Rightarrow> Meta settled \<times> Feeder" where
  "meta f =
     (let p = position f in
      case jump f 0 of
        Inl (e, f0) \<Rightarrow> (Thrown e, f0)
      | Inr (u, f0) \<Rightarrow> finally_jump p (meta_executor f0))"

text \<open>\<^verbatim>\<open>headers\<close> calls \<^verbatim>\<open>readFields\<close> while it builds the argument of
  \<^verbatim>\<open>Promise.resolve\<close>: an error of \<^verbatim>\<open>readFields\<close> is thrown by \<^verbatim>\<open>headers\<close> itself, before
  the \<^verbatim>\<open>finally\<close> handler exists.\<close>

definition headers :: "Feeder \<Rightarrow> (Header list settled \<times> Feeder) option" where
  "headers f =
     (let p = position f in
      case jump f 176 of
        Inl (e, f0) \<Rightarrow> Some (Thrown e, f0)
      | Inr (u, f0) \<Rightarrow>
          (case readFields f0 of
             None \<Rightarrow> None
           | Some (Inl (e, f1)) \<Rightarrow> Some (Thrown e, f1)
           | Some (Inr (hdrs, f1)) \<Rightarrow> Some (finally_jump p (Resolved hdrs, f1))))"

definition schema :: "Feeder \<Rightarrow> (Schema settled \<times> Feeder) option" where
  "schema f =
     (let p = position f in
      case meta f of
        (Thrown e, f1) \<Rightarrow> Some (Thrown e, f1)
      | (Rejected e, f1) \<Rightarrow> Some (finally_jump p (Rejected e, f1))
      | (Resolved m, f1) \<Rightarrow>
          (case jump f1 176 of
             Inl (e, f2) \<Rightarrow> Some (finally_jump p (Rejected e, f2))
           | Inr (u, f2) \<Rightarrow>
               (case readFields f2 of
                  None \<Rightarrow> None
                | Some (Inl (e, f3)) \<Rightarrow> Some (finally_jump p (Rejected e, f3))
                | Some (Inr (hdrs, f3)) \<Rightarrow>
                    (case readInternal f3 of
                       None \<Rightarrow> None
                     | Some (Inl (e, f4)) \<Rightarrow> Some (finally_jump p (Rejected e, f4))
                     | Some (Inr (internal, f4)) \<Rightarrow>
                         Some (finally_jump p
                           (Resolved \<lparr>s_meta = m, s_headers = hdrs, s_internal = internal\<rparr>,
                            f4))))))"

record Parsed =
  p_meta :: Meta
  p_headers :: "Header list"
  p_internal :: Internal
  p_rows :: "Row list"

definition all :: "Feeder \<Rightarrow> (Parsed settled \<times> Feeder) option" where
  "all f =
     (let p = position f in
      case schema f of
        None \<Rightarrow> None
      | Some (Thrown e, f1) \<Rightarrow> Some (Thrown e, f1)
      | Some (Rejected e, f1) \<Rightarrow> Some (finally_jump p (Rejected e, f1))
      | Some (Resolved s, f1) \<Rightarrow>
          (case read s (new_DataReader f1) of
             Inl (e, r) \<Rightarrow> Some (finally_jump p (Rejected e, dr_feeder r))
           | Inr (rows, r) \<Rightarrow>
               Some (finally_jump p
                 (Resolved \<lparr>p_meta = s_meta s, p_headers = s_headers s,
                            p_internal = s_internal s, p_rows = rows\<rparr>, dr_feeder r))))"

section \<open>Specification-level notions and example inputs\<close>

definition example_schema :: "int \<Rightarrow> int \<Rightarrow> Header list \<Rightarrow> Schema" where
  "example_schema compression cases hs =
     \<lparr>s_meta = \<lparr>m_product = [], m_layout = 2, m_variables = 1, m_compression = compression,
         m_weightIndex = 0, m_cases = cases, m_bias = F64 0x4059000000000000,
         m_createdDate = [], m_createdTime = [], m_label = []\<rparr>,
       s_headers = hs,
       s_internal = \<lparr>i_float = None, i_integer = None, i_display = [], i_documents = [],
         i_names = [], i_longs = [], i_levels = [], i_extra = [], i_unrecognized = [],
         i_finished = 0\<rparr>\<rparr>"

text \<open>
  The decoding of a compressed string cell in the words of the specification: for each of
  the \<open>n\<close> required segments one instruction code is read; 253 appends the next 8 raw bytes
  decoded as text, 254 appends an empty segment, 255 makes the whole string absent at once,
  without reading anything more for the cell, 252 is fatal and any other code is fatal.
  The result is the list of the segments, or \<open>None\<close> for an absent string.
\<close>

definition add_segment ::
  "string \<Rightarrow> (string list option, DataReader) result \<Rightarrow> (string list option, DataReader) result"
  where
  "add_segment s res =
     (case res of
        Inl er \<Rightarrow> Inl er
      | Inr (None, r2) \<Rightarrow> Inr (None, r2)
      | Inr (Some segs, r2) \<Rightarrow> Inr (Some (s # segs), r2))"

fun spec_compressed_segments ::
  "nat \<Rightarrow> DataReader \<Rightarrow> (string list option, DataReader) result" where
  "spec_compressed_segments 0 r = Inr (Some [], r)"
| "spec_compressed_segments (Suc n) r =
     (case compressedCodes r of
        Inl er \<Rightarrow> Inl er
      | Inr (code, r1) \<Rightarrow>
          if code = 253 then
            (case feeder_next (dr_feeder r1) 8 of
               Inl (e, f') \<Rightarrow> Inl (e, r1\<lparr>dr_feeder := f'\<rparr>)
             | Inr (chunk, f') \<Rightarrow>
                 add_segment (decode chunk) (spec_compressed_segments n (r1\<lparr>dr_feeder := f'\<rparr>)))
          else if code = 254 then add_segment [] (spec_compressed_segments n r1)
          else if code = 255 then Inr (None, r1)
          else if code = 252 then Inl (UnexpectedEndOfRecords, r1)
          else Inl (DefaultCodeNotSupported, r1))"

definition cell_of_segments ::
  "string list \<Rightarrow> (string list option, DataReader) result \<Rightarrow> (cell, DataReader) result" where
  "cell_of_segments pieces res =
     (case res of
        Inl er \<Rightarrow> Inl er
      | Inr (None, r') \<Rightarrow> Inr (CellNull, r')
      | Inr (Some segs, r') \<Rightarrow> Inr (CellString (concat (pieces @ segs)), r'))"

definition hello_buffer :: "byte list" where
  "hello_buffer = [253, 254, 0, 0, 0, 0, 0, 0, 72, 69, 76, 76, 79, 0, 0, 0]"

definition example_header :: "int \<Rightarrow> Header" where
  "example_header code =
     \<lparr>h_start = 176, h_code = code, h_name = ''V1'', h_label = [],
      h_missing = \<lparr>mv_codes = [], mv_range = None, mv_strings = []\<rparr>, h_trailers = 0\<rparr>"

definition extension_buffer :: "byte list" where
  "extension_buffer = [7, 0, 0, 0, 99, 0, 0, 0, 2, 0, 0, 0, 2, 0, 0, 0, 1, 2, 3, 4]"

text \<open>
  The field-dictionary stream at a feeder: the records that \<^verbatim>\<open>readField\<close> decodes one after
  the other behind tags 2, up to the first tag that is not 2, where the cursor is put back
  in front of that tag.
\<close>

inductive field_stream :: "Feeder \<Rightarrow> Header list \<Rightarrow> Feeder \<Rightarrow> bool" where
  stream_end:
    "feeder_next f 4 = Inr (chunk, f1) \<Longrightarrow> getInt32 chunk 0 = Inr code \<Longrightarrow> code \<noteq> 2 \<Longrightarrow>
     jump f1 (position f1 - 4) = Inr ((), f2) \<Longrightarrow> field_stream f [] f2"
| stream_record:
    "feeder_next f 4 = Inr (chunk, f1) \<Longrightarrow> getInt32 chunk 0 = Inr 2 \<Longrightarrow>
     readField f1 = Inr (rcd, f2) \<Longrightarrow> field_stream f2 rcds f3 \<Longrightarrow>
     field_stream f (rcd # rcds) f3"

text \<open>
  The field list in the words of the specification: the records of non-negative type code,
  in the order of the stream, none of negative code; the trailer count of each is the
  number of continuation records (negative code) that follow it immediately.
\<close>

definition continuation :: "Header \<Rightarrow> bool" where
  "continuation r = (\<not> h_code r > - 1)"

fun spec_fields :: "Header list \<Rightarrow> Header list" where
  "spec_fields [] = []"
| "spec_fields (r # rs) =
     (if continuation r then spec_fields rs
      else r\<lparr>h_trailers := int (length (takeWhile continuation rs))\<rparr> # spec_fields rs)"

text \<open>The effect of the loop body of \<^verbatim>\<open>readFields\<close> on the array, over a list of records.\<close>

fun push_all :: "Header list \<Rightarrow> Header list \<Rightarrow> error + Header list" where
  "push_all hdrs [] = Inr hdrs"
| "push_all hdrs (r # rs) =
     (if h_code r > - 1 then push_all (hdrs @ [r]) rs
      else (case bump_trailers hdrs of Inl e \<Rightarrow> Inl e | Inr hdrs' \<Rightarrow> push_all hdrs' rs))"

definition fields_buffer :: "byte list" where
  "fields_buffer =
     [2, 0, 0, 0,
      12, 0, 0, 0, 0, 0, 0, 0, 0, 0, 0, 0, 0, 0, 0, 0, 0, 0, 0, 0, 78, 65, 77, 69, 32, 32, 32, 32,
      2, 0, 0, 0,
      255, 255, 255, 255, 0, 0, 0, 0, 0, 0, 0, 0, 0, 0, 0, 0, 0, 0, 0, 0,
      32, 32, 32, 32, 32, 32, 32, 32,
      231, 3, 0, 0]"

definition name_field :: Header where
  "name_field = \<lparr>h_start = 4, h_code = 12, h_name = ''NAME'', h_label = [],
     h_missing = no_missing, h_trailers = 0\<rparr>"

definition name_continuation :: Header where
  "name_continuation = \<lparr>h_start = 36, h_code = - 1, h_name = [], h_label = [],
     h_missing = no_missing, h_trailers = 0\<rparr>"

definition state_of :: "('a, 's) result \<Rightarrow> 's" where
  "state_of res = (case res of Inl (e, s) \<Rightarrow> s | Inr (v, s) \<Rightarrow> s)"

definition same_file :: "DataReader \<Rightarrow> DataReader \<Rightarrow> bool" where
  "same_file r r' =
     (buffer (dr_feeder r') = buffer (dr_feeder r) \<and> dr_position r' = dr_position r)"

definition in_range :: "Feeder \<Rightarrow> bool" where
  "in_range f = (0 \<le> cursor f \<and> cursor f \<le> int (length (buffer f)))"

text \<open>The reader after the first \<open>n\<close> rows have been decoded.\<close>

fun after_rows :: "Schema \<Rightarrow> nat \<Rightarrow> DataReader \<Rightarrow> error \<times> DataReader + DataReader" where
  "after_rows sch 0 r = Inr r"
| "after_rows sch (Suc n) r =
     (case readRow sch r of
        Inl er \<Rightarrow> Inl er
      | Inr (row, r1) \<Rightarrow> after_rows sch n r1)"

text \<open>
  A small file: the 176-byte header with the signature, compression 0 and 3 cases; one
  numeric field \<^verbatim>\<open>V1\<close>; the terminator record; three rows of one 8-byte cell each.
\<close>

definition file_header :: "byte list" where
  "file_header =
     [36, 70, 76, 50] @ replicate 60 32 @
     [2, 0, 0, 0, 1, 0, 0, 0, 0, 0, 0, 0, 0, 0, 0, 0, 3, 0, 0, 0,
      0, 0, 0, 0, 0, 0, 0x59, 0x40] @
     replicate 81 32 @ [0, 0, 0]"

definition file_dictionary :: "byte list" where
  "file_dictionary =
     [2, 0, 0, 0,
      0, 0, 0, 0, 0, 0, 0, 0, 0, 0, 0, 0, 0, 0, 0, 0, 0, 0, 0, 0, 86, 49, 32, 32, 32, 32, 32, 32,
      231, 3, 0, 0, 0, 0, 0, 0]"

definition file_data :: "byte list" where
  "file_data =
     [0, 0, 0, 0, 0, 0, 0, 1, 0, 0, 0, 0, 0, 0, 0, 2, 0, 0, 0, 0, 0, 0, 0, 3]"

definition example_file :: "byte list" where
  "example_file = file_header @ file_dictionary @ file_data"

definition file_meta :: Meta where
  "file_meta =
     \<lparr>m_product = [], m_layout = 2, m_variables = 1, m_compression = 0, m_weightIndex = 0,
      m_cases = 3, m_bias = F64 0x4059000000000000,
      m_createdDate = replicate 9 (CHR '' ''), m_createdTime = replicate 8 (CHR '' ''),
      m_label = []\<rparr>"

definition file_field :: Header where
  "file_field = \<lparr>h_start = 180, h_code = 0, h_name = ''V1'', h_label = [],
     h_missing = no_missing, h_trailers = 0\<rparr>"

definition file_schema :: Schema where
  "file_schema = \<lparr>s_meta = file_meta, s_headers = [file_field],
     s_internal = empty_Internal\<lparr>i_finished := 216\<rparr>\<rparr>"

definition file_rows :: "Row list" where
  "file_rows = [[(''V1'', CellNumber (F64 1))], [(''V1'', CellNumber (F64 2))],
     [(''V1'', CellNumber (F64 3))]]"

definition file_parsed :: Parsed where
  "file_parsed = \<lparr>p_meta = file_meta, p_headers = [file_field],
     p_internal = empty_Internal\<lparr>i_finished := 216\<rparr>, p_rows = file_rows\<rparr>"

lemma slice_buf_window:
  "0 \<le> c \<Longrightarrow> 0 \<le> n \<Longrightarrow> c + n \<le> int (length buf) \<Longrightarrow>
   slice_buf buf (c + n - n) (c + n) = take (nat n) (drop (nat c) buf)"
  by (simp add: slice_buf_def Let_def min_def)

lemma feeder_next_ok:
  "0 \<le> cursor f \<Longrightarrow> 0 \<le> n \<Longrightarrow> cursor f + n \<le> int (length (buffer f)) \<Longrightarrow>
   feeder_next f n = Inr (take (nat n) (drop (nat (cursor f)) (buffer f)), f\<lparr>cursor := cursor f + n\<rparr>)"
  using slice_buf_window [of "cursor f" n "buffer f"]
  by (simp add: feeder_next_def Let_def)

text \<open>
  C10. A failing \<^verbatim>\<open>jump\<close> and a failing \<^verbatim>\<open>next\<close> leave the feeder as it was, and they fail
  exactly when the target lies outside the buffer, respectively when the cursor plus the
  size exceeds the buffer length. For a size that is not negative and a cursor that is not
  negative, a successful \<^verbatim>\<open>next(size)\<close> returns exactly \<^verbatim>\<open>size\<close> bytes, those that start
  at the old cursor, and advances the cursor by \<^verbatim>\<open>size\<close>.
\<close>

theorem Feeder_jump_next_frame:
  "(jump f p = Inl (e, f') \<longleftrightarrow>
      (p < 0 \<or> int (length (buffer f)) < p) \<and> e = JumpOutOfBounds \<and> f' = f) \<and>
   (feeder_next f n = Inl (e, f') \<longleftrightarrow>
      int (length (buffer f)) < cursor f + n \<and> e = UnexpectedEndOfFile \<and> f' = f) \<and>
   (0 \<le> cursor f \<and> 0 \<le> n \<and> cursor f + n \<le> int (length (buffer f)) \<longrightarrow>
      feeder_next f n =
        Inr (take (nat n) (drop (nat (cursor f)) (buffer f)), f\<lparr>cursor := cursor f + n\<rparr>) \<and>
      int (length (take (nat n) (drop (nat (cursor f)) (buffer f)))) = n)"
proof (intro conjI impI)
  show "jump f p = Inl (e, f') \<longleftrightarrow>
      (p < 0 \<or> int (length (buffer f)) < p) \<and> e = JumpOutOfBounds \<and> f' = f"
    by (auto simp: jump_def)
  show "feeder_next f n = Inl (e, f') \<longleftrightarrow>
      int (length (buffer f)) < cursor f + n \<and> e = UnexpectedEndOfFile \<and> f' = f"
    by (auto simp: feeder_next_def Let_def)
next
  assume a: "0 \<le> cursor f \<and> 0 \<le> n \<and> cursor f + n \<le> int (length (buffer f))"
  then show "feeder_next f n =
      Inr (take (nat n) (drop (nat (cursor f)) (buffer f)), f\<lparr>cursor := cursor f + n\<rparr>)"
    by (simp add: feeder_next_ok)
  from a show "int (length (take (nat n) (drop (nat (cursor f)) (buffer f)))) = n"
    by (simp add: min_def) linarith
qed

theorem Feeder_jump_next_frame_witness:
  "jump \<lparr>buffer = [1, 2, 3, 4], cursor = 1\<rparr> 5 =
     Inl (JumpOutOfBounds, \<lparr>buffer = [1, 2, 3, 4], cursor = 1\<rparr>) \<and>
   feeder_next \<lparr>buffer = [1, 2, 3, 4], cursor = 1\<rparr> 2 =
     Inr ([2, 3], \<lparr>buffer = [1, 2, 3, 4], cursor = 3\<rparr>)"
  using Feeder_jump_next_frame
    [of "\<lparr>buffer = [1, 2, 3, 4], cursor = 1\<rparr>" 5 JumpOutOfBounds
        "\<lparr>buffer = [1, 2, 3, 4], cursor = 1\<rparr>" 2]
  by simp

text \<open>
  Without the restriction to sizes that are not negative the last part fails: at cursor 8 of
  a buffer of 8 bytes, \<^verbatim>\<open>next(-4)\<close> succeeds, returns no byte at all and moves the cursor
  back to 4.
\<close>

theorem Feeder_next_negative_size_counterexample:
  "feeder_next \<lparr>buffer = [1, 2, 3, 4, 5, 6, 7, 8], cursor = 8\<rparr> (- 4) =
     Inr ([], \<lparr>buffer = [1, 2, 3, 4, 5, 6, 7, 8], cursor = 4\<rparr>) \<and>
   int (length ([] :: byte list)) \<noteq> - 4"
  by (simp add: feeder_next_def slice_buf_def)

lemma getUint8_range: "getUint8 view off = Inr x \<Longrightarrow> x < 256"
proof -
  assume a: "getUint8 view off = Inr x"
  define xs where "xs = take 1 (drop (nat off) view)"
  from a have ok: "0 \<le> off" "off + 1 \<le> int (length view)"
    and x: "x = nat (uint_le xs)"
    by (auto simp: getUint8_def view_bytes_def xs_def split: if_splits)
  from ok have "length xs = 1"
    unfolding xs_def by (simp add: min_def) linarith
  then obtain b where "xs = [b]"
    by (cases xs) auto
  with x have "x = unat b" by (simp add: uint_le_def)
  moreover have "unat b < 2 ^ 8" using unsigned_less [of b] by simp
  ultimately show ?thesis by simp
qed

lemma compressedCodes_range:
  "compressedCodes r = Inr (c, r') \<Longrightarrow> 0 < c \<and> c < 256"
proof (induction r rule: compressedCodes.induct)
  case (1 r)
  note eq = compressedCodes.simps [of r]
  show ?case
  proof (cases "dr_cursor r > 7")
    case True
    show ?thesis
    proof (cases "feeder_next (dr_feeder r) 8")
      case (Inl ef)
      with "1.prems" True show ?thesis by (simp add: eq split: prod.splits)
    next
      case (Inr cf)
      obtain chunk f' where cf: "cf = (chunk, f')" by (cases cf)
      note nx = Inr [unfolded cf]
      let ?r1 = "r\<lparr>dr_feeder := f', dr_instructions := Some chunk, dr_cursor := 0\<rparr>"
      let ?r2 = "r\<lparr>dr_feeder := f', dr_instructions := Some chunk, dr_cursor := 1\<rparr>"
      show ?thesis
      proof (cases "getUint8 chunk 0")
        case (Inl e)
        with "1.prems" True nx show ?thesis by (simp add: eq Let_def)
      next
        case g: (Inr instruction)
        with "1.prems" True nx
        have res: "(if instruction = 0 then compressedCodes ?r2 else Inr (instruction, ?r2))
           = Inr (c, r')"
          by (simp add: eq Let_def)
        show ?thesis
        proof (cases "instruction = 0")
          case z: True
          show ?thesis
            using "1.IH" [of ?r1 chunk ?r2 instruction] True nx g z res
            by simp
        next
          case False
          with res getUint8_range [OF g] show ?thesis by auto
        qed
      qed
    qed
  next
    case False
    let ?r2 = "r\<lparr>dr_cursor := dr_cursor r + 1\<rparr>"
    show ?thesis
    proof (cases "dr_instructions r")
      case None
      with "1.prems" False show ?thesis by (simp add: eq)
    next
      case v: (Some view)
      show ?thesis
      proof (cases "getUint8 view (dr_cursor r)")
        case (Inl e)
        with "1.prems" False v show ?thesis by (simp add: eq Let_def)
      next
        case g: (Inr instruction)
        with "1.prems" False v
        have res: "(if instruction = 0 then compressedCodes ?r2 else Inr (instruction, ?r2))
           = Inr (c, r')"
          by (simp add: eq Let_def)
        show ?thesis
        proof (cases "instruction = 0")
          case z: True
          show ?thesis
            using "1.IH" [of r view ?r2 instruction] False v g z res
            by simp
        next
          case False
          with res getUint8_range [OF g] show ?thesis by auto
        qed
      qed
    qed
  qed
qed

text \<open>
  C3. When the instruction reader hands the code \<open>c\<close> to the decoder of a compressed numeric
  cell, \<open>c\<close> is never 0 (zero bytes are skipped by the instruction reader) and lies in
  \<open>1..255\<close>. A code in \<open>1..251\<close> gives the number \<open>c - bias\<close>, 255 gives null, 253 gives the
  next 8 raw bytes read as a little-endian double, and 252 and 254 are fatal errors.
\<close>

theorem compressedNumber_by_code:
  assumes "compressedCodes r = Inr (c, r1)"
  shows "c \<noteq> 0 \<and> c \<le> 255 \<and>
    (1 \<le> c \<and> c \<le> 251 \<longrightarrow>
       compressedNumber sch r = Inr (CellNumber (CodeMinus c (m_bias (s_meta sch))), r1)) \<and>
    (c = 255 \<longrightarrow> compressedNumber sch r = Inr (CellNull, r1)) \<and>
    (c = 253 \<and> 0 \<le> cursor (dr_feeder r1) \<and>
       cursor (dr_feeder r1) + 8 \<le> int (length (buffer (dr_feeder r1))) \<longrightarrow>
       compressedNumber sch r =
         Inr (CellNumber (F64 (word_of_int (uint_le
                (take 8 (drop (nat (cursor (dr_feeder r1))) (buffer (dr_feeder r1))))))),
              r1\<lparr>dr_feeder := (dr_feeder r1)\<lparr>cursor := cursor (dr_feeder r1) + 8\<rparr>\<rparr>)) \<and>
    (c = 252 \<longrightarrow> compressedNumber sch r = Inl (UnexpectedEndOfRecords, r1)) \<and>
    (c = 254 \<longrightarrow> compressedNumber sch r = Inl (CellCodeTypeMismatch, r1))"
proof -
  from compressedCodes_range [OF assms] have rng: "0 < c" "c < 256" by simp_all
  have small: "1 \<le> c \<and> c \<le> 251 \<longrightarrow>
       compressedNumber sch r = Inr (CellNumber (CodeMinus c (m_bias (s_meta sch))), r1)"
    using assms by (simp add: compressedNumber_def)
  have null: "c = 255 \<longrightarrow> compressedNumber sch r = Inr (CellNull, r1)"
    using assms by (simp add: compressedNumber_def)
  have lit: "c = 253 \<and> 0 \<le> cursor (dr_feeder r1) \<and>
       cursor (dr_feeder r1) + 8 \<le> int (length (buffer (dr_feeder r1))) \<longrightarrow>
       compressedNumber sch r =
         Inr (CellNumber (F64 (word_of_int (uint_le
                (take 8 (drop (nat (cursor (dr_feeder r1))) (buffer (dr_feeder r1))))))),
              r1\<lparr>dr_feeder := (dr_feeder r1)\<lparr>cursor := cursor (dr_feeder r1) + 8\<rparr>\<rparr>)"
  proof
    assume a: "c = 253 \<and> 0 \<le> cursor (dr_feeder r1) \<and>
       cursor (dr_feeder r1) + 8 \<le> int (length (buffer (dr_feeder r1)))"
    let ?chunk = "take 8 (drop (nat (cursor (dr_feeder r1))) (buffer (dr_feeder r1)))"
    from a have nx: "feeder_next (dr_feeder r1) 8 =
        Inr (?chunk, (dr_feeder r1)\<lparr>cursor := cursor (dr_feeder r1) + 8\<rparr>)"
      using feeder_next_ok [of "dr_feeder r1" 8] by simp
    from a have len: "length ?chunk = 8" by (simp add: min_def) linarith
    then have "getFloat64 ?chunk 0 True = Inr (F64 (word_of_int (uint_le ?chunk)))"
      by (simp add: getFloat64_def view_bytes_def)
    with assms a nx show "compressedNumber sch r =
         Inr (CellNumber (F64 (word_of_int (uint_le ?chunk))),
              r1\<lparr>dr_feeder := (dr_feeder r1)\<lparr>cursor := cursor (dr_feeder r1) + 8\<rparr>\<rparr>)"
      by (simp add: compressedNumber_def)
  qed
  have eor: "c = 252 \<longrightarrow> compressedNumber sch r = Inl (UnexpectedEndOfRecords, r1)"
    using assms by (simp add: compressedNumber_def)
  have mism: "c = 254 \<longrightarrow> compressedNumber sch r = Inl (CellCodeTypeMismatch, r1)"
    using assms by (simp add: compressedNumber_def)
  from rng small null lit eor mism show ?thesis by simp
qed

lemmas eval_reader =
  compressedCodes.simps new_DataReader_def feeder_next_def slice_buf_def
  getUint8_def view_bytes_def uint_le_def position_def Let_def

lemma example_code_5:
  "compressedCodes (new_DataReader \<lparr>buffer = [0, 0, 5, 0, 0, 0, 0, 0], cursor = 0\<rparr>)
   = Inr (5, \<lparr>dr_feeder = \<lparr>buffer = [0, 0, 5, 0, 0, 0, 0, 0], cursor = 8\<rparr>, dr_position = 0,
        dr_instructions = Some [0, 0, 5, 0, 0, 0, 0, 0], dr_cursor = 3\<rparr>)"
  by (simp add: eval_reader)

lemma example_code_255:
  "compressedCodes (new_DataReader \<lparr>buffer = [255, 0, 0, 0, 0, 0, 0, 0], cursor = 0\<rparr>)
   = Inr (255, \<lparr>dr_feeder = \<lparr>buffer = [255, 0, 0, 0, 0, 0, 0, 0], cursor = 8\<rparr>,
        dr_position = 0, dr_instructions = Some [255, 0, 0, 0, 0, 0, 0, 0], dr_cursor = 1\<rparr>)"
  by (simp add: eval_reader)

lemma example_code_253:
  "compressedCodes (new_DataReader
      \<lparr>buffer = [253, 0, 0, 0, 0, 0, 0, 0, 0, 0, 0, 0, 0, 0, 0xF0, 0x3F], cursor = 0\<rparr>)
   = Inr (253, \<lparr>dr_feeder =
          \<lparr>buffer = [253, 0, 0, 0, 0, 0, 0, 0, 0, 0, 0, 0, 0, 0, 0xF0, 0x3F], cursor = 8\<rparr>,
        dr_position = 0, dr_instructions = Some [253, 0, 0, 0, 0, 0, 0, 0], dr_cursor = 1\<rparr>)"
  by (simp add: eval_reader)

theorem compressedNumber_by_code_witness:
  "compressedNumber (example_schema 1 1 [])
      (new_DataReader \<lparr>buffer = [0, 0, 5, 0, 0, 0, 0, 0], cursor = 0\<rparr>) =
     Inr (CellNumber (CodeMinus 5 (F64 0x4059000000000000)),
          \<lparr>dr_feeder = \<lparr>buffer = [0, 0, 5, 0, 0, 0, 0, 0], cursor = 8\<rparr>, dr_position = 0,
           dr_instructions = Some [0, 0, 5, 0, 0, 0, 0, 0], dr_cursor = 3\<rparr>) \<and>
   compressedNumber (example_schema 1 1 [])
      (new_DataReader \<lparr>buffer = [255, 0, 0, 0, 0, 0, 0, 0], cursor = 0\<rparr>) =
     Inr (CellNull,
          \<lparr>dr_feeder = \<lparr>buffer = [255, 0, 0, 0, 0, 0, 0, 0], cursor = 8\<rparr>, dr_position = 0,
           dr_instructions = Some [255, 0, 0, 0, 0, 0, 0, 0], dr_cursor = 1\<rparr>) \<and>
   compressedNumber (example_schema 1 1 [])
      (new_DataReader
         \<lparr>buffer = [253, 0, 0, 0, 0, 0, 0, 0, 0, 0, 0, 0, 0, 0, 0xF0, 0x3F], cursor = 0\<rparr>) =
     Inr (CellNumber (F64 0x3FF0000000000000),
          \<lparr>dr_feeder =
             \<lparr>buffer = [253, 0, 0, 0, 0, 0, 0, 0, 0, 0, 0, 0, 0, 0, 0xF0, 0x3F], cursor = 16\<rparr>,
           dr_position = 0, dr_instructions = Some [253, 0, 0, 0, 0, 0, 0, 0], dr_cursor = 1\<rparr>)"
  using compressedNumber_by_code [OF example_code_5, of "example_schema 1 1 []"]
    compressedNumber_by_code [OF example_code_255, of "example_schema 1 1 []"]
    compressedNumber_by_code [OF example_code_253, of "example_schema 1 1 []"]
  by (simp add: example_schema_def uint_le_def)

lemma add_segment_Some:
  "add_segment s res = Inr (Some segs, r') \<Longrightarrow>
   \<exists>segs'. segs = s # segs' \<and> res = Inr (Some segs', r')"
  by (auto simp: add_segment_def split: sum.splits prod.splits option.splits)

lemma cell_of_add_segment:
  "cell_of_segments pieces (add_segment s res) = cell_of_segments (pieces @ [s]) res"
  by (auto simp: add_segment_def cell_of_segments_def split: sum.splits prod.splits option.splits)

lemma spec_compressed_segments_length:
  "spec_compressed_segments n r = Inr (Some segs, r') \<Longrightarrow> length segs = n"
proof (induction n arbitrary: r segs r')
  case 0
  then show ?case by simp
next
  case (Suc n)
  show ?case
  proof (cases "compressedCodes r")
    case (Inl er)
    with Suc.prems show ?thesis by simp
  next
    case (Inr cr)
    obtain code r1 where cr: "cr = (code, r1)" by (cases cr)
    note cc = Inr [unfolded cr]
    consider (lit) "code = 253" | (empty) "code = 254" | (other) "code \<noteq> 253" "code \<noteq> 254"
      by blast
    then show ?thesis
    proof cases
      case lit
      show ?thesis
      proof (cases "feeder_next (dr_feeder r1) 8")
        case (Inl ef)
        with Suc.prems cc lit show ?thesis by (simp split: prod.splits)
      next
        case nx: (Inr cf)
        obtain chunk f' where cf: "cf = (chunk, f')" by (cases cf)
        from Suc.prems cc lit nx cf
        have "add_segment (decode chunk) (spec_compressed_segments n (r1\<lparr>dr_feeder := f'\<rparr>))
            = Inr (Some segs, r')"
          by simp
        from add_segment_Some [OF this] Suc.IH show ?thesis by auto
      qed
    next
      case empty
      with Suc.prems cc
      have "add_segment [] (spec_compressed_segments n r1) = Inr (Some segs, r')"
        by simp
      from add_segment_Some [OF this] Suc.IH show ?thesis by auto
    next
      case other
      with Suc.prems cc show ?thesis by (simp split: if_splits)
    qed
  qed
qed

lemma compressedString_loop_refines:
  "compressedString_loop r (int (Suc n)) pieces =
     cell_of_segments pieces (spec_compressed_segments (Suc n) r)"
proof (induction n arbitrary: r pieces)
  case 0
  show ?case
    by (subst compressedString_loop.simps)
       (simp add: cell_of_segments_def add_segment_def split: sum.splits prod.splits)
next
  case (Suc n)
  have step: "int (Suc (Suc n)) - 1 = int (Suc n)" "int (Suc (Suc n)) - 1 \<noteq> 0" by simp_all
  have unf: "spec_compressed_segments (Suc (Suc n)) r =
     (case compressedCodes r of
        Inl er \<Rightarrow> Inl er
      | Inr (code, r1) \<Rightarrow>
          if code = 253 then
            (case feeder_next (dr_feeder r1) 8 of
               Inl (e, f') \<Rightarrow> Inl (e, r1\<lparr>dr_feeder := f'\<rparr>)
             | Inr (chunk, f') \<Rightarrow>
                 add_segment (decode chunk)
                   (spec_compressed_segments (Suc n) (r1\<lparr>dr_feeder := f'\<rparr>)))
          else if code = 254 then add_segment [] (spec_compressed_segments (Suc n) r1)
          else if code = 255 then Inr (None, r1)
          else if code = 252 then Inl (UnexpectedEndOfRecords, r1)
          else Inl (DefaultCodeNotSupported, r1))"
    by (rule spec_compressed_segments.simps(2))
  show ?case
    apply (subst compressedString_loop.simps)
    apply (subst unf)
    apply (simp only: step if_True Suc.IH)
    apply (simp add: cell_of_add_segment del: spec_compressed_segments.simps
             split: sum.splits prod.splits)
    apply (simp add: cell_of_segments_def)
    done
qed

text \<open>
  C5. A compressed string cell of a field of width \<open>w > 0\<close> is decoded over
  \<open>n = ceil (w / 8)\<close> segments, \<open>n \<ge> 1\<close>, exactly as the specification words it: one
  instruction code per segment, 253 appends the next 8 raw bytes as text, 254 appends an
  empty segment, 255 returns null at once, 252 and every other code are fatal; without a
  255 the value is the concatenation of exactly \<open>n\<close> segments.
\<close>

theorem compressedString_refines_spec:
  assumes "0 < w"
  shows "ceil8 w = (w + 7) div 8 \<and> 0 < nat (ceil8 w) \<and>
    compressedString r (ceil8 w) =
      cell_of_segments [] (spec_compressed_segments (nat (ceil8 w)) r) \<and>
    (\<forall>segs r'. spec_compressed_segments (nat (ceil8 w)) r = Inr (Some segs, r') \<longrightarrow>
       length segs = nat (ceil8 w) \<and>
       compressedString r (ceil8 w) = Inr (CellString (concat segs), r')) \<and>
    (\<forall>r'. spec_compressed_segments (nat (ceil8 w)) r = Inr (None, r') \<longrightarrow>
       compressedString r (ceil8 w) = Inr (CellNull, r'))"
proof -
  from assms have c: "ceil8 w = (w + 7) div 8" and pos: "0 < ceil8 w"
    by (simp_all add: ceil8_def)
  define n where "n = nat (ceil8 w) - 1"
  from pos have n: "nat (ceil8 w) = Suc n" "ceil8 w = int (Suc n)"
    by (simp_all add: n_def)
  have ref: "compressedString r (ceil8 w) =
      cell_of_segments [] (spec_compressed_segments (nat (ceil8 w)) r)"
    using compressedString_loop_refines [of r n "[]"]
    by (simp only: compressedString_def n nat_int)
  have some: "\<forall>segs r'. spec_compressed_segments (nat (ceil8 w)) r = Inr (Some segs, r') \<longrightarrow>
       length segs = nat (ceil8 w) \<and>
       compressedString r (ceil8 w) = Inr (CellString (concat segs), r')"
    using spec_compressed_segments_length [of "nat (ceil8 w)" r]
    by (simp add: ref cell_of_segments_def)
  have none: "\<forall>r'. spec_compressed_segments (nat (ceil8 w)) r = Inr (None, r') \<longrightarrow>
       compressedString r (ceil8 w) = Inr (CellNull, r')"
    by (simp add: ref cell_of_segments_def)
  from c pos ref some none show ?thesis by simp
qed

lemma hello_code_1:
  "compressedCodes (new_DataReader \<lparr>buffer = hello_buffer, cursor = 0\<rparr>) =
   Inr (253, \<lparr>dr_feeder = \<lparr>buffer = hello_buffer, cursor = 8\<rparr>, dr_position = 0,
        dr_instructions = Some [253, 254, 0, 0, 0, 0, 0, 0], dr_cursor = 1\<rparr>)"
  by (simp add: eval_reader hello_buffer_def)

lemma hello_literal:
  "feeder_next \<lparr>buffer = hello_buffer, cursor = 8\<rparr> 8 =
   Inr ([72, 69, 76, 76, 79, 0, 0, 0], \<lparr>buffer = hello_buffer, cursor = 16\<rparr>)"
  by (simp add: feeder_next_def slice_buf_def hello_buffer_def)

lemma hello_code_2:
  "compressedCodes \<lparr>dr_feeder = \<lparr>buffer = hello_buffer, cursor = 16\<rparr>, dr_position = 0,
        dr_instructions = Some [253, 254, 0, 0, 0, 0, 0, 0], dr_cursor = 1\<rparr> =
   Inr (254, \<lparr>dr_feeder = \<lparr>buffer = hello_buffer, cursor = 16\<rparr>, dr_position = 0,
        dr_instructions = Some [253, 254, 0, 0, 0, 0, 0, 0], dr_cursor = 2\<rparr>)"
  by (simp add: eval_reader)

lemma example_hello_segments:
  "spec_compressed_segments 2 (new_DataReader \<lparr>buffer = hello_buffer, cursor = 0\<rparr>) =
   Inr (Some [''HELLO'' @ [CHR 0x00, CHR 0x00, CHR 0x00], []],
        \<lparr>dr_feeder = \<lparr>buffer = hello_buffer, cursor = 16\<rparr>,
         dr_position = 0, dr_instructions = Some [253, 254, 0, 0, 0, 0, 0, 0], dr_cursor = 2\<rparr>)"
proof -
  have two: "(2::nat) = Suc (Suc 0)" by simp
  show ?thesis
    by (subst two)
       (simp add: hello_code_1 hello_literal hello_code_2 add_segment_def decode_def
          char_of_def bit_Suc_0_iff)
qed

theorem compressedString_refines_spec_witness:
  "compressedString (new_DataReader \<lparr>buffer = hello_buffer, cursor = 0\<rparr>) (ceil8 10) =
   Inr (CellString (''HELLO'' @ [CHR 0x00, CHR 0x00, CHR 0x00]),
        \<lparr>dr_feeder = \<lparr>buffer = hello_buffer, cursor = 16\<rparr>,
         dr_position = 0, dr_instructions = Some [253, 254, 0, 0, 0, 0, 0, 0], dr_cursor = 2\<rparr>)"
proof -
  have w: "(0::int) < 10" by simp
  have n: "nat (ceil8 10) = 2" by (simp add: ceil8_def)
  from compressedString_refines_spec
    [OF w, of "new_DataReader \<lparr>buffer = hello_buffer, cursor = 0\<rparr>"]
  have "compressedString (new_DataReader \<lparr>buffer = hello_buffer, cursor = 0\<rparr>) (ceil8 10) =
     cell_of_segments []
       (spec_compressed_segments 2 (new_DataReader \<lparr>buffer = hello_buffer, cursor = 0\<rparr>))"
    unfolding n by (elim conjE)
  then show ?thesis
    unfolding example_hello_segments by (simp add: cell_of_segments_def)
qed

lemma uncompressedString_loop_result:
  "uncompressedString_loop r len pieces = Inr (v, r') \<Longrightarrow> v = CellString (concat pieces)"
proof (induction r len pieces rule: uncompressedString_loop.induct)
  case (1 r len pieces)
  note eq = uncompressedString_loop.simps [of r len pieces]
  show ?case
  proof (cases "feeder_next (dr_feeder r) 8")
    case (Inl ef)
    with "1.prems" show ?thesis by (simp add: eq split: prod.splits)
  next
    case (Inr cf)
    obtain chunk f' where cf: "cf = (chunk, f')" by (cases cf)
    note nx = Inr [unfolded cf]
    show ?thesis
    proof (cases "len - 1 \<noteq> 0")
      case True
      with "1.prems" nx
      have "uncompressedString_loop (r\<lparr>dr_feeder := f'\<rparr>) (len - 1) pieces = Inr (v, r')"
        by (simp add: eq Let_def)
      with "1.IH" [of "(chunk, f')" chunk f' "pieces @ [decode chunk]"] nx True
      show ?thesis by simp
    next
      case False
      with "1.prems" nx show ?thesis by (simp add: eq Let_def)
    qed
  qed
qed

lemma uncompressedString_loop_consumes:
  "0 \<le> cursor (dr_feeder r) \<Longrightarrow>
   cursor (dr_feeder r) + 8 * int (Suc n) \<le> int (length (buffer (dr_feeder r))) \<Longrightarrow>
   uncompressedString_loop r (int (Suc n)) pieces =
     Inr (CellString (concat pieces),
          r\<lparr>dr_feeder := (dr_feeder r)\<lparr>cursor := cursor (dr_feeder r) + 8 * int (Suc n)\<rparr>\<rparr>)"
proof (induction n arbitrary: r)
  case 0
  then have "feeder_next (dr_feeder r) 8 =
      Inr (take 8 (drop (nat (cursor (dr_feeder r))) (buffer (dr_feeder r))),
           (dr_feeder r)\<lparr>cursor := cursor (dr_feeder r) + 8\<rparr>)"
    using feeder_next_ok [of "dr_feeder r" 8] by simp
  then show ?case
    by (subst uncompressedString_loop.simps) (simp add: Let_def)
next
  case (Suc n)
  let ?f' = "(dr_feeder r)\<lparr>cursor := cursor (dr_feeder r) + 8\<rparr>"
  from Suc.prems have nx: "feeder_next (dr_feeder r) 8 =
      Inr (take 8 (drop (nat (cursor (dr_feeder r))) (buffer (dr_feeder r))), ?f')"
    using feeder_next_ok [of "dr_feeder r" 8] by simp
  have step: "int (Suc (Suc n)) - 1 = int (Suc n)" "int (Suc (Suc n)) - 1 \<noteq> 0" by simp_all
  from Suc.prems have
    "uncompressedString_loop (r\<lparr>dr_feeder := ?f'\<rparr>) (int (Suc n)) pieces =
       Inr (CellString (concat pieces),
            r\<lparr>dr_feeder := ?f'\<lparr>cursor := cursor ?f' + 8 * int (Suc n)\<rparr>\<rparr>)"
    using Suc.IH [of "r\<lparr>dr_feeder := ?f'\<rparr>"] by simp
  then show ?case
    by (subst uncompressedString_loop.simps) (simp only: nx step, simp add: Let_def algebra_simps)
qed

text \<open>
  C4. An uncompressed string cell of width 8 over the bytes \<^verbatim>\<open>ABCDEFGH\<close>: the decoder
  consumes the one segment (the cursor ends at 8) and returns the empty string, not the
  decoded text \<^verbatim>\<open>ABCDEFGH\<close> of the segment.
\<close>

theorem uncompressedString_returns_empty:
  "readCell (example_schema 0 1 [example_header 8])
     (new_DataReader \<lparr>buffer = [65, 66, 67, 68, 69, 70, 71, 72], cursor = 0\<rparr>)
     (example_header 8) =
   Inr (CellString [],
        \<lparr>dr_feeder = \<lparr>buffer = [65, 66, 67, 68, 69, 70, 71, 72], cursor = 8\<rparr>,
         dr_position = 0, dr_instructions = None, dr_cursor = 8\<rparr>) \<and>
   decode [65, 66, 67, 68, 69, 70, 71, 72] = ''ABCDEFGH''"
  by (simp add: readCell_def readString_def uncompressedString_def example_schema_def
        example_header_def ceil8_def uncompressedString_loop.simps new_DataReader_def
        position_def feeder_next_def slice_buf_def Let_def decode_def char_of_def
        bit_Suc_0_iff)

lemma getInt32_window:
  assumes "0 \<le> off" and "off + 4 \<le> int m" and "k + m \<le> length v"
  shows "getInt32 (take m (drop k v)) off = getInt32 v (int k + off)"
proof -
  from assms have l: "length (take m (drop k v)) = m" by simp
  from assms have t: "take 4 (drop (nat off) (take m (drop k v))) = take 4 (drop (nat (int k + off)) v)"
    by (simp add: drop_take nat_add_distrib add.commute)
  from assms l t show ?thesis
    by (simp add: getInt32_def view_bytes_def)
qed

lemma collect_total: "collect (map (\<lambda>x. Inr (h x)) xs) = Inr (map h xs)"
  by (induction xs) simp_all

lemma array_map_total:
  "0 \<le> count \<Longrightarrow> array_map count (\<lambda>idx. Inr (h idx)) = Inr (map (\<lambda>i. h (int i)) [0..<nat count])"
  using collect_total [of "\<lambda>i. h (int i)" "[0..<nat count]"]
  by (simp add: array_map_def)

lemma slice_buf_element:
  assumes "i < c" and "length chunk = c * l"
  shows "slice_buf chunk (int i * int l) (int i * int l + int l) = take l (drop (i * l) chunk)"
proof -
  from assms have "Suc i * l \<le> c * l" by (intro mult_le_mono1) simp
  then have le: "i * l + l \<le> c * l" by simp
  then have top: "int i * int l + int l \<le> int (length chunk)"
    using assms(2) by (metis of_nat_add of_nat_le_iff of_nat_mult)
  have nb: "nat (int i * int l) = i * l" by (simp add: nat_mult_distrib)
  have "0 \<le> int i * int l" by simp
  from slice_buf_window [OF this _ top] nb show ?thesis by simp
qed

lemma concat_slices:
  "length xs = c * l \<Longrightarrow> concat (map (\<lambda>i. take l (drop (i * l) xs)) [0..<c]) = xs"
proof (induction c arbitrary: xs)
  case 0
  then show ?case by simp
next
  case (Suc c)
  have "[0..<Suc c] = 0 # map Suc [0..<c]"
    by (simp add: upt_conv_Cons map_Suc_upt del: upt_Suc)
  then have "concat (map (\<lambda>i. take l (drop (i * l) xs)) [0..<Suc c]) =
      take l xs @ concat (map (\<lambda>i. take l (drop (i * l) (drop l xs))) [0..<c])"
    by (simp add: comp_def add.commute del: upt_Suc)
  also have "concat (map (\<lambda>i. take l (drop (i * l) (drop l xs))) [0..<c]) = drop l xs"
    using Suc.prems by (intro Suc.IH) simp
  finally show ?case by simp
qed

lemma slice_length:
  assumes "i < c" and "length xs = c * l"
  shows "length (take l (drop (i * l) xs)) = l"
proof -
  from assms have "Suc i * l \<le> c * l" by (intro mult_le_mono1) simp
  with assms show ?thesis by simp
qed

text \<open>
  C9. A tag-7 extension record at the cursor (tag at offset 0, subtype at 4, element size at
  8, element count at 12, payload from 16) whose subtype is none of 3, 4, 11, 13, 14, 21,
  whose element size and count are not negative and whose payload of count times size
  bytes lies in the buffer: the turn of the internal-record loop succeeds, moves the cursor
  past the payload, and appends to the unrecognized list the subtype with the payload cut
  into count slices of size bytes each; nothing else of the record state changes, so the
  loop goes on with the next record.
\<close>

theorem readInternal_unrecognized_extension:
  fixes f :: Feeder and partial :: Internal and subcode len count :: int
  defines "rec \<equiv> drop (nat (cursor f)) (buffer f)"
  defines "payload \<equiv> take (nat (count * len)) (drop 16 rec)"
  defines "slices \<equiv> map (\<lambda>i. take (nat len) (drop (i * nat len) payload)) [0..<nat count]"
  defines "partial' \<equiv> partial\<lparr>i_unrecognized := i_unrecognized partial @ [(subcode, slices)]\<rparr>"
  defines "f' \<equiv> f\<lparr>cursor := cursor f + 16 + count * len\<rparr>"
  assumes cur: "0 \<le> cursor f"
    and tag: "getInt32 rec 0 = Inr 7"
    and sub: "getInt32 rec 4 = Inr subcode" "getInt32 rec 8 = Inr len"
      "getInt32 rec 12 = Inr count"
    and unk: "subcode \<notin> {3, 4, 11, 13, 14, 21}"
    and nn: "0 \<le> len" "0 \<le> count"
    and fits: "cursor f + 16 + count * len \<le> int (length (buffer f))"
  shows "readInternal_step partial f = Inr (partial', f') \<and>
     length slices = nat count \<and> (\<forall>s \<in> set slices. length s = nat len) \<and>
     concat slices = payload \<and> length payload = nat (count * len) \<and>
     (i_finished partial = 0 \<longrightarrow> readInternal_loop partial f = readInternal_loop partial' f')"
proof -
  from nn have prod: "0 \<le> count * len" by simp
  let ?c = "nat (cursor f)"
  let ?f1 = "f\<lparr>cursor := cursor f + 4\<rparr>"
  let ?f2 = "f\<lparr>cursor := cursor f + 16\<rparr>"
  from cur fits prod have len16: "?c + 16 \<le> length (buffer f)" by linarith
  have n1: "feeder_next f 4 = Inr (take 4 rec, ?f1)"
    using feeder_next_ok [of f 4] cur len16 by (simp add: rec_def)
  have n2: "feeder_next ?f1 12 = Inr (take 12 (drop 4 rec), ?f2)"
    using feeder_next_ok [of ?f1 12] cur len16
    by (simp add: rec_def nat_add_distrib add.commute)
  have n3: "feeder_next ?f2 (count * len) = Inr (payload, f')"
    using feeder_next_ok [of ?f2 "count * len"] cur fits prod
    by (simp add: rec_def payload_def f'_def nat_add_distrib add.commute add.assoc)
  have lrec: "length rec = length (buffer f) - ?c" by (simp add: rec_def)
  have g0: "getInt32 (take 4 rec) 0 = Inr 7"
    using getInt32_window [of 0 4 0 rec] len16 lrec tag by simp
  have g1: "getInt32 (take 12 (drop 4 rec)) 0 = Inr subcode"
    using getInt32_window [of 0 12 4 rec] len16 lrec sub(1) by simp
  have g2: "getInt32 (take 12 (drop 4 rec)) 4 = Inr len"
    using getInt32_window [of 4 12 4 rec] len16 lrec sub(2) by simp
  have g3: "getInt32 (take 12 (drop 4 rec)) 8 = Inr count"
    using getInt32_window [of 8 12 4 rec] len16 lrec sub(3) by simp
  have "nat (count * len) \<le> length (buffer f) - (16 + ?c)"
    using fits cur prod by linarith
  then have "length payload = nat (count * len)"
    by (simp add: payload_def rec_def min_def)
  then have plen: "length payload = nat count * nat len"
    using nn by (simp add: nat_mult_distrib)
  have sl: "map (\<lambda>i. slice_buf payload (int i * len) (int i * len + len)) [0..<nat count] = slices"
    unfolding slices_def
  proof (rule map_cong [OF refl])
    fix i assume "i \<in> set [0..<nat count]"
    then have "i < nat count" by simp
    from slice_buf_element [OF this plen] nn
    show "slice_buf payload (int i * len) (int i * len + len) =
        take (nat len) (drop (i * nat len) payload)"
      by simp
  qed
  have ru: "readUnrecognized ?f2 count len = Inr (slices, f')"
    using array_map_total [OF nn(2), of "\<lambda>idx. slice_buf payload (idx * len) (idx * len + len)"] sl
    by (simp add: readUnrecognized_def n3)
  have ext: "readExtension partial ?f2 subcode len count = Inr (partial', f')"
    using unk by (simp add: readExtension_def ru partial'_def)
  have step: "readInternal_step partial f = Inr (partial', f')"
    by (simp add: readInternal_step_def n1 g0 n2 g1 g2 g3 bind_e_def ext)
  have l1: "length slices = nat count" by (simp add: slices_def)
  have l2: "\<forall>s \<in> set slices. length s = nat len"
    using slice_length [OF _ plen] by (auto simp: slices_def)
  have l3: "concat slices = payload"
    unfolding slices_def using plen by (rule concat_slices)
  have l4: "length payload = nat (count * len)"
    using plen nn by (simp add: nat_mult_distrib)
  have l5: "i_finished partial = 0 \<longrightarrow>
      readInternal_loop partial f = readInternal_loop partial' f'"
    by (subst readInternal_loop.simps) (simp add: step)
  from step l1 l2 l3 l4 l5 show ?thesis by simp
qed

lemmas eval_view = getInt32_def view_bytes_def uint_le_def to_signed_def

theorem readInternal_unrecognized_extension_witness:
  "readInternal_step empty_Internal \<lparr>buffer = extension_buffer, cursor = 0\<rparr> =
     Inr (empty_Internal\<lparr>i_unrecognized := [(99, [[1, 2], [3, 4]])]\<rparr>,
          \<lparr>buffer = extension_buffer, cursor = 20\<rparr>)"
proof -
  let ?f = "\<lparr>buffer = extension_buffer, cursor = 0\<rparr>"
  let ?rec = "drop (nat (cursor ?f)) (buffer ?f)"
  have r: "?rec = extension_buffer" by simp
  have h: "0 \<le> cursor ?f" "getInt32 ?rec 0 = Inr 7" "getInt32 ?rec 4 = Inr 99"
    "getInt32 ?rec 8 = Inr 2" "getInt32 ?rec 12 = Inr 2"
    "(99::int) \<notin> {3, 4, 11, 13, 14, 21}" "(0::int) \<le> 2" "(0::int) \<le> 2"
    "cursor ?f + 16 + 2 * 2 \<le> int (length (buffer ?f))"
    unfolding r by (simp_all add: extension_buffer_def eval_view)
  have u: "[0..<nat 2] = [0, Suc 0]" by (simp add: upt_rec)
  from readInternal_unrecognized_extension [OF h, of empty_Internal]
  have "readInternal_step empty_Internal ?f =
     Inr (empty_Internal\<lparr>i_unrecognized := i_unrecognized empty_Internal @
            [(99, map (\<lambda>i. take (nat 2) (drop (i * nat 2) (take (nat (2 * 2)) (drop 16 ?rec))))
                    [0..<nat 2])]\<rparr>,
          ?f\<lparr>cursor := cursor ?f + 16 + 2 * 2\<rparr>)"
    by (elim conjE)
  then show ?thesis
    unfolding r u by (simp add: extension_buffer_def empty_Internal_def)
qed

text \<open>
  A tag-7 record of the unknown subtype 99 with element size 1 and element count \<open>-1\<close>: the
  turn of the loop fails with a \<^verbatim>\<open>RangeError\<close> (from \<^verbatim>\<open>new Array(-1)\<close>), after
  \<^verbatim>\<open>next(-1)\<close> has moved the cursor back by one byte.
\<close>

theorem readInternal_negative_count_counterexample:
  "readInternal_step empty_Internal
     \<lparr>buffer = [7, 0, 0, 0, 99, 0, 0, 0, 1, 0, 0, 0, 255, 255, 255, 255], cursor = 0\<rparr> =
   Inl (RangeError,
        \<lparr>buffer = [7, 0, 0, 0, 99, 0, 0, 0, 1, 0, 0, 0, 255, 255, 255, 255], cursor = 15\<rparr>)"
  by (simp add: readInternal_step_def feeder_next_def slice_buf_def eval_view bind_e_def
        readExtension_def readUnrecognized_def array_map_def Let_def)

lemma readField_trailers: "readField f = Inr (r, f') \<Longrightarrow> h_trailers r = 0"
  by (auto simp: readField_def Let_def split: sum.splits prod.splits if_splits)

lemma field_stream_trailers:
  "field_stream f recs f' \<Longrightarrow> \<forall>r \<in> set recs. h_trailers r = 0"
  by (induction rule: field_stream.induct) (auto dest: readField_trailers)

lemma readFields_loop_stream:
  "field_stream f recs f' \<Longrightarrow> push_all hdrs recs = Inr result \<Longrightarrow>
   readFields_loop f hdrs = Some (Inr (result, f'))"
proof (induction arbitrary: hdrs rule: field_stream.induct)
  case (stream_end f chunk f1 code f2)
  then show ?case
    by (subst readFields_loop.simps) simp
next
  case (stream_record f chunk f1 rcd f2 rcds f3)
  show ?case
  proof (cases "h_code rcd > - 1")
    case True
    with stream_record.prems have "push_all (hdrs @ [rcd]) rcds = Inr result" by simp
    from stream_record.IH [OF this] stream_record.hyps True show ?thesis
      by (subst readFields_loop.simps) simp
  next
    case False
    with stream_record.prems obtain hdrs' where
      b: "bump_trailers hdrs = Inr hdrs'" and p: "push_all hdrs' rcds = Inr result"
      by (auto split: sum.splits)
    from stream_record.IH [OF p] stream_record.hyps False b show ?thesis
      by (subst readFields_loop.simps) simp
  qed
qed

lemma spec_fields_skip: "spec_fields (dropWhile continuation rs) = spec_fields rs"
  by (induction rs) simp_all

lemma push_all_spec:
  "hdrs \<noteq> [] \<Longrightarrow> \<forall>r \<in> set recs. h_trailers r = 0 \<Longrightarrow>
   push_all hdrs recs =
     Inr (butlast hdrs @
          [(last hdrs)\<lparr>h_trailers :=
              h_trailers (last hdrs) + int (length (takeWhile continuation recs))\<rparr>] @
          spec_fields recs)"
proof (induction recs arbitrary: hdrs)
  case Nil
  then show ?case by simp
next
  case (Cons r rs)
  show ?case
  proof (cases "h_code r > - 1")
    case True
    from Cons.prems have r0: "h_trailers r = 0" and rs0: "\<forall>r \<in> set rs. h_trailers r = 0"
      by simp_all
    have "push_all (hdrs @ [r]) rs =
        Inr (butlast (hdrs @ [r]) @
          [(last (hdrs @ [r]))\<lparr>h_trailers :=
              h_trailers (last (hdrs @ [r])) + int (length (takeWhile continuation rs))\<rparr>] @
          spec_fields rs)"
      by (rule Cons.IH) (simp_all add: rs0)
    moreover from True have "\<not> continuation r" by (simp add: continuation_def)
    ultimately show ?thesis
      using True r0 Cons.prems(1) by simp
  next
    case False
    from Cons.prems have rs0: "\<forall>r \<in> set rs. h_trailers r = 0" by simp
    let ?h = "butlast hdrs @ [(last hdrs)\<lparr>h_trailers := h_trailers (last hdrs) + 1\<rparr>]"
    have b: "bump_trailers hdrs = Inr ?h"
      using Cons.prems(1) by (simp add: bump_trailers_def)
    have "push_all ?h rs =
        Inr (butlast ?h @
          [(last ?h)\<lparr>h_trailers :=
              h_trailers (last ?h) + int (length (takeWhile continuation rs))\<rparr>] @
          spec_fields rs)"
      by (rule Cons.IH) (simp_all add: rs0)
    moreover from False have "continuation r" by (simp add: continuation_def)
    ultimately show ?thesis
      using False b by (simp add: add.assoc)
  qed
qed

lemma push_all_from_empty:
  assumes "recs = [] \<or> \<not> continuation (hd recs)" and "\<forall>r \<in> set recs. h_trailers r = 0"
  shows "push_all [] recs = Inr (spec_fields recs)"
proof (cases recs)
  case Nil
  then show ?thesis by simp
next
  case (Cons r rs)
  with assms have nc: "\<not> continuation r" and r0: "h_trailers r = 0"
    and rs0: "\<forall>r \<in> set rs. h_trailers r = 0"
    by simp_all
  from push_all_spec [of "[r]" rs] rs0 r0
  have "push_all [r] rs =
      Inr (r\<lparr>h_trailers := int (length (takeWhile continuation rs))\<rparr> # spec_fields rs)"
    by simp
  with Cons nc show ?thesis by (simp add: continuation_def)
qed

lemma spec_fields_no_continuation:
  "h \<in> set (spec_fields recs) \<Longrightarrow> \<not> continuation h"
  by (induction recs) (auto simp: continuation_def split: if_splits)

lemma spec_fields_filter:
  "\<forall>r \<in> set recs. h_trailers r = 0 \<Longrightarrow>
   map (\<lambda>h. h\<lparr>h_trailers := 0\<rparr>) (spec_fields recs) = filter (\<lambda>r. \<not> continuation r) recs"
proof (induction recs)
  case Nil
  then show ?case by simp
next
  case (Cons r rs)
  then have "r\<lparr>h_trailers := 0\<rparr> = r" by simp
  with Cons show ?case by simp
qed

text \<open>
  C8. For a field-dictionary stream at the feeder \<open>f\<close> whose first record, if there is one,
  has a non-negative type code (so that every continuation record has a field in front of
  it), \<^verbatim>\<open>readFields\<close> returns, with the cursor in front of the closing tag: the records of
  non-negative code only, in the order of the stream (up to their trailer counts they are
  the stream with the continuation records filtered out), each with the number of the
  continuation records that follow it immediately as its trailer count.
\<close>

theorem readFields_folds_continuations:
  assumes "field_stream f recs f'"
    and "recs = [] \<or> h_code (hd recs) > - 1"
  shows "readFields f = Some (Inr (spec_fields recs, f')) \<and>
    map (\<lambda>h. h\<lparr>h_trailers := 0\<rparr>) (spec_fields recs) = filter (\<lambda>r. h_code r > - 1) recs \<and>
    (\<forall>h \<in> set (spec_fields recs). h_code h > - 1)"
proof -
  note t0 = field_stream_trailers [OF assms(1)]
  from assms(2) have "recs = [] \<or> \<not> continuation (hd recs)"
    by (simp add: continuation_def)
  from push_all_from_empty [OF this t0]
  have p: "push_all [] recs = Inr (spec_fields recs)" .
  have a: "readFields f = Some (Inr (spec_fields recs, f'))"
    unfolding readFields_def by (rule readFields_loop_stream [OF assms(1) p])
  have b: "map (\<lambda>h. h\<lparr>h_trailers := 0\<rparr>) (spec_fields recs) = filter (\<lambda>r. h_code r > - 1) recs"
    using spec_fields_filter [OF t0] by (simp add: continuation_def)
  have "\<forall>h \<in> set (spec_fields recs). h_code h > - 1"
    using spec_fields_no_continuation [of _ recs] by (auto simp: continuation_def)
  with a b show ?thesis by simp
qed

lemmas eval_feeder = feeder_next_def slice_buf_def jump_def position_def Let_def

lemma fields_buffer_stream:
  "field_stream \<lparr>buffer = fields_buffer, cursor = 0\<rparr> [name_field, name_continuation]
     \<lparr>buffer = fields_buffer, cursor = 64\<rparr>"
proof -
  have t1: "feeder_next \<lparr>buffer = fields_buffer, cursor = 0\<rparr> 4 =
      Inr ([2, 0, 0, 0], \<lparr>buffer = fields_buffer, cursor = 4\<rparr>)"
    by (simp add: eval_feeder fields_buffer_def)
  have g2: "getInt32 [2, 0, 0, 0] 0 = Inr 2" by (simp add: eval_view)
  have r1: "readField \<lparr>buffer = fields_buffer, cursor = 4\<rparr> =
      Inr (name_field, \<lparr>buffer = fields_buffer, cursor = 32\<rparr>)"
    by (simp add: readField_def eval_feeder fields_buffer_def eval_view bind_e_def
          name_field_def decode_def char_of_def bit_Suc_0_iff trim_def is_space_def)
  have t2: "feeder_next \<lparr>buffer = fields_buffer, cursor = 32\<rparr> 4 =
      Inr ([2, 0, 0, 0], \<lparr>buffer = fields_buffer, cursor = 36\<rparr>)"
    by (simp add: eval_feeder fields_buffer_def)
  have r2: "readField \<lparr>buffer = fields_buffer, cursor = 36\<rparr> =
      Inr (name_continuation, \<lparr>buffer = fields_buffer, cursor = 64\<rparr>)"
    by (simp add: readField_def eval_feeder fields_buffer_def eval_view bind_e_def
          name_continuation_def decode_def char_of_def bit_Suc_0_iff trim_def is_space_def)
  have t3: "feeder_next \<lparr>buffer = fields_buffer, cursor = 64\<rparr> 4 =
      Inr ([231, 3, 0, 0], \<lparr>buffer = fields_buffer, cursor = 68\<rparr>)"
    by (simp add: eval_feeder fields_buffer_def)
  have g999: "getInt32 [231, 3, 0, 0] 0 = Inr 999" by (simp add: eval_view)
  have j: "jump \<lparr>buffer = fields_buffer, cursor = 68\<rparr>
      (position \<lparr>buffer = fields_buffer, cursor = 68\<rparr> - 4) =
      Inr ((), \<lparr>buffer = fields_buffer, cursor = 64\<rparr>)"
    by (simp add: eval_feeder fields_buffer_def)
  have e: "field_stream \<lparr>buffer = fields_buffer, cursor = 64\<rparr> []
      \<lparr>buffer = fields_buffer, cursor = 64\<rparr>"
    by (rule stream_end [OF t3 g999 _ j]) simp
  from stream_record [OF t1 g2 r1 stream_record [OF t2 g2 r2 e]] show ?thesis .
qed

theorem readFields_folds_continuations_witness:
  "readFields \<lparr>buffer = fields_buffer, cursor = 0\<rparr> =
     Some (Inr ([name_field\<lparr>h_trailers := 1\<rparr>], \<lparr>buffer = fields_buffer, cursor = 64\<rparr>))"
proof -
  have h: "[name_field, name_continuation] = [] \<or>
      h_code (hd [name_field, name_continuation]) > - 1"
    by (simp add: name_field_def)
  have s: "spec_fields [name_field, name_continuation] = [name_field\<lparr>h_trailers := 1\<rparr>]"
    by (simp add: continuation_def name_field_def name_continuation_def)
  from readFields_folds_continuations [OF fields_buffer_stream h] show ?thesis
    unfolding s by (elim conjE)
qed

section \<open>The buffer is never changed\<close>

lemma jump_buffer:
  "jump f p = Inr (u, f') \<Longrightarrow> buffer f' = buffer f"
  "jump f p = Inl (e, f') \<Longrightarrow> buffer f' = buffer f"
  by (auto simp: jump_def split: if_splits)

lemma feeder_next_buffer:
  "feeder_next f n = Inr (c, f') \<Longrightarrow> buffer f' = buffer f"
  "feeder_next f n = Inl (e, f') \<Longrightarrow> buffer f' = buffer f"
  by (auto simp: feeder_next_def Let_def split: if_splits)

lemma readFieldLabel_buffer:
  "readFieldLabel f = Inr (v, f') \<Longrightarrow> buffer f' = buffer f"
  "readFieldLabel f = Inl (e, f') \<Longrightarrow> buffer f' = buffer f"
  by (auto simp: readFieldLabel_def Let_def split: sum.splits prod.splits
        dest!: feeder_next_buffer)

lemma readFieldMissing_buffer:
  "readFieldMissing f numeric code = Inr (v, f') \<Longrightarrow> buffer f' = buffer f"
  "readFieldMissing f numeric code = Inl (e, f') \<Longrightarrow> buffer f' = buffer f"
  by (auto simp: readFieldMissing_def split: sum.splits prod.splits
        dest!: feeder_next_buffer)

lemma readField_buffer:
  "readField f = Inr (v, f') \<Longrightarrow> buffer f' = buffer f"
  "readField f = Inl (e, f') \<Longrightarrow> buffer f' = buffer f"
  by (auto simp: readField_def Let_def split: sum.splits prod.splits if_splits
        dest!: feeder_next_buffer readFieldLabel_buffer readFieldMissing_buffer)

lemma state_of_simps [simp]:
  "state_of (Inl (e, s)) = s" "state_of (Inr (v, s)) = s"
  by (simp_all add: state_of_def)

lemma readFields_loop_buffer:
  assumes "readFields_loop f hdrs = Some res"
  shows "buffer (state_of res) = buffer f"
proof (rule readFields_loop.raw_induct
    [OF _ assms, where P = "\<lambda>f hdrs res. buffer (state_of res) = buffer f"], goal_cases)
  case (1 loop f hdrs res)
  from 1(2) show ?case
    by (auto split: sum.splits prod.splits if_splits
          dest!: feeder_next_buffer readField_buffer jump_buffer dest: 1(1))
qed

lemma getLevel_buffer:
  "getLevel f = Inr (v, f') \<Longrightarrow> buffer f' = buffer f"
  "getLevel f = Inl (e, f') \<Longrightarrow> buffer f' = buffer f"
  by (auto simp: getLevel_def Let_def split: sum.splits prod.splits
        dest!: feeder_next_buffer)

lemma getLevels_buffer: "buffer (state_of (getLevels n f)) = buffer f"
  by (induction n arbitrary: f)
     (auto split: sum.splits prod.splits dest!: getLevel_buffer, (metis state_of_simps)+)

lemma getLevels_buffer':
  "getLevels n f = Inr (v, f') \<Longrightarrow> buffer f' = buffer f"
  "getLevels n f = Inl (e, f') \<Longrightarrow> buffer f' = buffer f"
  using getLevels_buffer [of n f] by simp_all

lemma readScale_buffer:
  "readScale f = Inr (v, f') \<Longrightarrow> buffer f' = buffer f"
  "readScale f = Inl (e, f') \<Longrightarrow> buffer f' = buffer f"
  by (auto simp: readScale_def split: sum.splits prod.splits if_splits
        dest!: feeder_next_buffer getLevels_buffer')

lemma readDocument_buffer:
  "readDocument f = Inr (v, f') \<Longrightarrow> buffer f' = buffer f"
  "readDocument f = Inl (e, f') \<Longrightarrow> buffer f' = buffer f"
  by (auto simp: readDocument_def split: sum.splits prod.splits
        dest!: feeder_next_buffer)

lemma readSysInteger_buffer:
  "readSysInteger f = Inr (v, f') \<Longrightarrow> buffer f' = buffer f"
  "readSysInteger f = Inl (e, f') \<Longrightarrow> buffer f' = buffer f"
  by (auto simp: readSysInteger_def split: sum.splits prod.splits
        dest!: feeder_next_buffer)

lemma readSysFloat_buffer:
  "readSysFloat f = Inr (v, f') \<Longrightarrow> buffer f' = buffer f"
  "readSysFloat f = Inl (e, f') \<Longrightarrow> buffer f' = buffer f"
  by (auto simp: readSysFloat_def split: sum.splits prod.splits
        dest!: feeder_next_buffer)

lemma readSysDisplay_buffer:
  "readSysDisplay f n = Inr (v, f') \<Longrightarrow> buffer f' = buffer f"
  "readSysDisplay f n = Inl (e, f') \<Longrightarrow> buffer f' = buffer f"
  by (auto simp: readSysDisplay_def split: sum.splits prod.splits
        dest!: feeder_next_buffer)

lemma readNames_buffer:
  "readNames f n = Inr (v, f') \<Longrightarrow> buffer f' = buffer f"
  "readNames f n = Inl (e, f') \<Longrightarrow> buffer f' = buffer f"
  by (auto simp: readNames_def split: sum.splits prod.splits
        dest!: feeder_next_buffer)

lemma readLongWidths_buffer:
  "readLongWidths f n = Inr (v, f') \<Longrightarrow> buffer f' = buffer f"
  "readLongWidths f n = Inl (e, f') \<Longrightarrow> buffer f' = buffer f"
  by (auto simp: readLongWidths_def split: sum.splits prod.splits
        dest!: feeder_next_buffer)

lemma readLongNames_buffer:
  "readLongNames f n = Inr (v, f') \<Longrightarrow> buffer f' = buffer f"
  "readLongNames f n = Inl (e, f') \<Longrightarrow> buffer f' = buffer f"
  by (auto simp: readLongNames_def dest!: feeder_next_buffer)

lemma readUnrecognized_buffer:
  "readUnrecognized f n l = Inr (v, f') \<Longrightarrow> buffer f' = buffer f"
  "readUnrecognized f n l = Inl (e, f') \<Longrightarrow> buffer f' = buffer f"
  by (auto simp: readUnrecognized_def split: sum.splits prod.splits
        dest!: feeder_next_buffer)

lemma readExtension_state: "buffer (state_of (readExtension p f s l n)) = buffer f"
proof -
  consider (c3) "s = 3" | (c4) "s = 4" | (c11) "s = 11" | (c13) "s = 13" | (c14) "s = 14"
    | (c21) "s = 21" | (other) "s \<notin> {3, 4, 11, 13, 14, 21}"
    by auto
  then show ?thesis
  proof cases
    case c3
    then show ?thesis
      by (auto simp: readExtension_def split: sum.splits prod.splits
            dest!: readSysInteger_buffer)
  next
    case c4
    then show ?thesis
      by (auto simp: readExtension_def split: sum.splits prod.splits
            dest!: readSysFloat_buffer)
  next
    case c11
    then show ?thesis
      by (auto simp: readExtension_def split: sum.splits prod.splits
            dest!: readSysDisplay_buffer)
  next
    case c13
    then show ?thesis
      by (auto simp: readExtension_def split: sum.splits prod.splits
            dest!: readNames_buffer)
  next
    case c14
    then show ?thesis
      by (auto simp: readExtension_def split: sum.splits prod.splits
            dest!: readLongWidths_buffer)
  next
    case c21
    then show ?thesis
      by (auto simp: readExtension_def split: sum.splits prod.splits
            dest!: readLongNames_buffer)
  next
    case other
    then show ?thesis
      by (auto simp: readExtension_def split: sum.splits prod.splits
            dest!: readUnrecognized_buffer)
  qed
qed

lemma readExtension_buffer:
  "readExtension p f s l n = Inr (v, f') \<Longrightarrow> buffer f' = buffer f"
  "readExtension p f s l n = Inl (e, f') \<Longrightarrow> buffer f' = buffer f"
  using readExtension_state [of p f s l n] by simp_all

lemma readInternal_step_state: "buffer (state_of (readInternal_step p f)) = buffer f"
proof (cases "feeder_next f 4")
  case (Inl ef)
  then show ?thesis
    by (cases ef) (auto simp: readInternal_step_def dest!: feeder_next_buffer)
next
  case (Inr cf)
  obtain chunk f1 where cf: "cf = (chunk, f1)" by (cases cf)
  from Inr cf have b1: "buffer f1 = buffer f" by (auto dest!: feeder_next_buffer)
  show ?thesis
  proof (cases "getInt32 chunk 0")
    case (Inl e)
    with Inr cf b1 show ?thesis by (simp add: readInternal_step_def)
  next
    case g: (Inr code)
    consider (c3) "code = 3" | (c6) "code = 6" | (c7) "code = 7" | (c999) "code = 999"
      | (other) "code \<notin> {3, 6, 7, 999}"
      by auto
    then show ?thesis
    proof cases
      case c3
      with Inr cf b1 g show ?thesis
        by (auto simp: readInternal_step_def split: sum.splits prod.splits
              dest!: readScale_buffer)
    next
      case c6
      with Inr cf b1 g show ?thesis
        by (auto simp: readInternal_step_def split: sum.splits prod.splits
              dest!: readDocument_buffer)
    next
      case c7
      with Inr cf b1 g show ?thesis
        by (auto simp: readInternal_step_def readExtension_state split: sum.splits prod.splits
              dest!: feeder_next_buffer)
    next
      case c999
      with Inr cf b1 g show ?thesis
        by (auto simp: readInternal_step_def split: sum.splits prod.splits
              dest!: feeder_next_buffer)
    next
      case other
      with Inr cf b1 g show ?thesis
        by (simp add: readInternal_step_def)
    qed
  qed
qed

lemma readInternal_step_buffer:
  "readInternal_step p f = Inr (v, f') \<Longrightarrow> buffer f' = buffer f"
  "readInternal_step p f = Inl (e, f') \<Longrightarrow> buffer f' = buffer f"
  using readInternal_step_state [of p f] by simp_all

lemma readInternal_loop_buffer:
  assumes "readInternal_loop p f = Some res"
  shows "buffer (state_of res) = buffer f"
proof (rule readInternal_loop.raw_induct
    [OF _ assms, where P = "\<lambda>p f res. buffer (state_of res) = buffer f"], goal_cases)
  case (1 loop p f res)
  show ?case
  proof (cases "i_finished p \<noteq> 0")
    case True
    with 1(2) show ?thesis by auto
  next
    case False
    show ?thesis
    proof (cases "readInternal_step p f")
      case (Inl ef)
      with 1(2) False readInternal_step_state [of p f] show ?thesis by auto
    next
      case (Inr pf)
      obtain p' f' where pf: "pf = (p', f')" by (cases pf)
      from Inr pf have "buffer f' = buffer f" by (auto dest!: readInternal_step_buffer)
      moreover from 1(2) False Inr pf have "loop p' f' = Some res" by simp
      then have "buffer (state_of res) = buffer f'" by (rule 1(1))
      ultimately show ?thesis by simp
    qed
  qed
qed

lemma readInternal_loop_finished:
  assumes "readInternal_loop p f = Some res"
  shows "case res of Inl ef \<Rightarrow> True | Inr (p', f') \<Rightarrow> i_finished p' \<noteq> 0"
proof (rule readInternal_loop.raw_induct
    [OF _ assms, where P = "\<lambda>p f res. case res of Inl ef \<Rightarrow> True
        | Inr (p', f') \<Rightarrow> i_finished p' \<noteq> 0"], goal_cases)
  case (1 loop p f res)
  from 1(2) show ?case
    by (auto split: sum.splits prod.splits if_splits dest: 1(1))
qed

lemma same_file_refl [simp]: "same_file r r"
  by (simp add: same_file_def)

lemma same_file_trans: "same_file r r1 \<Longrightarrow> same_file r1 r2 \<Longrightarrow> same_file r r2"
  by (simp add: same_file_def)

lemma same_file_next:
  "feeder_next (dr_feeder r) n = Inr (c, f') \<Longrightarrow> same_file r (r\<lparr>dr_feeder := f'\<rparr>)"
  "feeder_next (dr_feeder r) n = Inl (e, f') \<Longrightarrow> same_file r (r\<lparr>dr_feeder := f'\<rparr>)"
  by (auto simp: same_file_def dest!: feeder_next_buffer)

lemma compressedCodes_same_file: "same_file r (state_of (compressedCodes r))"
proof (induction r rule: compressedCodes.induct)
  case (1 r)
  note eq = compressedCodes.simps [of r]
  show ?case
  proof (cases "dr_cursor r > 7")
    case True
    show ?thesis
    proof (cases "feeder_next (dr_feeder r) 8")
      case (Inl ef)
      obtain e f' where ef: "ef = (e, f')" by (cases ef)
      from Inl ef True same_file_next(2) [of r 8 e f'] show ?thesis
        by (simp add: eq)
    next
      case (Inr cf)
      obtain chunk f' where cf: "cf = (chunk, f')" by (cases cf)
      note nx = Inr [unfolded cf]
      let ?r1 = "r\<lparr>dr_feeder := f', dr_instructions := Some chunk, dr_cursor := 0\<rparr>"
      let ?r2 = "r\<lparr>dr_feeder := f', dr_instructions := Some chunk, dr_cursor := 1\<rparr>"
      from same_file_next(1) [OF nx] have s2: "same_file r ?r2"
        by (simp add: same_file_def)
      show ?thesis
      proof (cases "getUint8 chunk 0")
        case (Inl e)
        with True nx s2 show ?thesis by (simp add: eq Let_def)
      next
        case g: (Inr instruction)
        show ?thesis
        proof (cases "instruction = 0")
          case z: True
          have "same_file ?r2 (state_of (compressedCodes ?r2))"
            using "1.IH" [of ?r1 chunk ?r2 instruction] True nx g z by simp
          with s2 have "same_file r (state_of (compressedCodes ?r2))"
            by (rule same_file_trans)
          with True nx g z show ?thesis by (simp add: eq Let_def)
        next
          case False
          with True nx g s2 show ?thesis by (simp add: eq Let_def)
        qed
      qed
    qed
  next
    case False
    let ?r2 = "r\<lparr>dr_cursor := dr_cursor r + 1\<rparr>"
    have s2: "same_file r ?r2" by (simp add: same_file_def)
    show ?thesis
    proof (cases "dr_instructions r")
      case None
      with False show ?thesis by (simp add: eq)
    next
      case v: (Some view)
      show ?thesis
      proof (cases "getUint8 view (dr_cursor r)")
        case (Inl e)
        with False v s2 show ?thesis by (simp add: eq Let_def)
      next
        case g: (Inr instruction)
        show ?thesis
        proof (cases "instruction = 0")
          case z: True
          have "same_file ?r2 (state_of (compressedCodes ?r2))"
            using "1.IH" [of r view ?r2 instruction] False v g z by simp
          with s2 have "same_file r (state_of (compressedCodes ?r2))"
            by (rule same_file_trans)
          with False v g z show ?thesis by (simp add: eq Let_def)
        next
          case nz: False
          with False v g s2 show ?thesis by (simp add: eq Let_def)
        qed
      qed
    qed
  qed
qed

lemma compressedCodes_same_file':
  "compressedCodes r = Inr (c, r') \<Longrightarrow> same_file r r'"
  "compressedCodes r = Inl (e, r') \<Longrightarrow> same_file r r'"
  using compressedCodes_same_file [of r] by simp_all

lemma uncompressedNumber_same_file: "same_file r (state_of (uncompressedNumber sch r))"
  by (auto simp: uncompressedNumber_def split: sum.splits prod.splits
        dest!: same_file_next)

lemma compressedNumber_same_file: "same_file r (state_of (compressedNumber sch r))"
  by (auto simp: compressedNumber_def split: sum.splits prod.splits
        dest!: compressedCodes_same_file' same_file_next intro: same_file_trans)

lemma uncompressedString_loop_same_file:
  "same_file r (state_of (uncompressedString_loop r len pieces))"
proof (induction r len pieces rule: uncompressedString_loop.induct)
  case (1 r len pieces)
  note eq = uncompressedString_loop.simps [of r len pieces]
  show ?case
  proof (cases "feeder_next (dr_feeder r) 8")
    case (Inl ef)
    obtain e f' where ef: "ef = (e, f')" by (cases ef)
    from Inl ef same_file_next(2) [of r 8 e f'] show ?thesis by (simp add: eq)
  next
    case (Inr cf)
    obtain chunk f' where cf: "cf = (chunk, f')" by (cases cf)
    note nx = Inr [unfolded cf]
    note s1 = same_file_next(1) [OF nx]
    show ?thesis
    proof (cases "len - 1 \<noteq> 0")
      case True
      from "1.IH" [of "(chunk, f')" chunk f' "pieces @ [decode chunk]"] nx True
      have "same_file (r\<lparr>dr_feeder := f'\<rparr>)
          (state_of (uncompressedString_loop (r\<lparr>dr_feeder := f'\<rparr>) (len - 1) pieces))"
        by simp
      with s1 have "same_file r
          (state_of (uncompressedString_loop (r\<lparr>dr_feeder := f'\<rparr>) (len - 1) pieces))"
        by (rule same_file_trans)
      with nx True show ?thesis by (simp add: eq Let_def)
    next
      case False
      with nx s1 show ?thesis unfolding eq by (simp add: Let_def)
    qed
  qed
qed

lemma compressedString_loop_same_file:
  "same_file r (state_of (compressedString_loop r len pieces))"
proof (induction r len pieces rule: compressedString_loop.induct)
  case (1 r len pieces)
  note eq = compressedString_loop.simps [of r len pieces]
  show ?case
  proof (cases "compressedCodes r")
    case (Inl er)
    obtain e r' where er: "er = (e, r')" by (cases er)
    from Inl er compressedCodes_same_file'(2) [of r e r'] show ?thesis by (simp add: eq)
  next
    case (Inr cr)
    obtain code r1 where cr: "cr = (code, r1)" by (cases cr)
    note cc = Inr [unfolded cr]
    note s1 = compressedCodes_same_file'(1) [OF cc]
    consider (lit) "code = 253" | (empty) "code = 254" | (other) "code \<noteq> 253" "code \<noteq> 254"
      by blast
    then show ?thesis
    proof cases
      case lit
      show ?thesis
      proof (cases "feeder_next (dr_feeder r1) 8")
        case (Inl ef)
        obtain e f' where ef: "ef = (e, f')" by (cases ef)
        from Inl ef same_file_next(2) [of r1 8 e f'] s1
        have "same_file r (r1\<lparr>dr_feeder := f'\<rparr>)" by (auto intro: same_file_trans)
        with cc lit Inl ef show ?thesis by (simp add: eq)
      next
        case nx: (Inr cf)
        obtain chunk f' where cf: "cf = (chunk, f')" by (cases cf)
        from same_file_next(1) [of r1 8 chunk f'] nx cf s1
        have s2: "same_file r (r1\<lparr>dr_feeder := f'\<rparr>)" by (auto intro: same_file_trans)
        show ?thesis
        proof (cases "len - 1 \<noteq> 0")
          case True
          from "1.IH"(1) [of "(code, r1)" code r1 "(chunk, f')" chunk f'] cc lit nx cf True
          have "same_file (r1\<lparr>dr_feeder := f'\<rparr>)
              (state_of (compressedString_loop (r1\<lparr>dr_feeder := f'\<rparr>) (len - 1)
                 (pieces @ [decode chunk])))"
            by simp
          with s2 have "same_file r
              (state_of (compressedString_loop (r1\<lparr>dr_feeder := f'\<rparr>) (len - 1)
                 (pieces @ [decode chunk])))"
            by (rule same_file_trans)
          with cc lit nx cf True show ?thesis by (simp add: eq)
        next
          case False
          with cc lit nx cf s2 show ?thesis unfolding eq by simp
        qed
      qed
    next
      case empty
      show ?thesis
      proof (cases "len - 1 \<noteq> 0")
        case True
        from "1.IH"(2) [of "(code, r1)" code r1] cc empty True
        have "same_file r1 (state_of (compressedString_loop r1 (len - 1) (pieces @ [[]])))"
          by simp
        with s1 have "same_file r
            (state_of (compressedString_loop r1 (len - 1) (pieces @ [[]])))"
          by (rule same_file_trans)
        with cc empty True show ?thesis by (simp add: eq)
      next
        case False
        with cc empty s1 show ?thesis unfolding eq by simp
      qed
    next
      case other
      with cc s1 show ?thesis by (simp add: eq)
    qed
  qed
qed

lemma readCell_same_file: "same_file r (state_of (readCell sch r header))"
  by (simp add: readCell_def readString_def readNumber_def compressedString_def
        uncompressedString_def uncompressedString_loop_same_file
        compressedString_loop_same_file uncompressedNumber_same_file
        compressedNumber_same_file)

lemma readCells_same_file: "same_file r (state_of (readCells sch hs r))"
proof (induction hs arbitrary: r)
  case Nil
  show ?case by simp
next
  case (Cons header hs)
  show ?case
  proof (cases "readCell sch r header")
    case (Inl er)
    with readCell_same_file [of r sch header] show ?thesis by (cases er) simp
  next
    case (Inr vr)
    obtain v r1 where vr: "vr = (v, r1)" by (cases vr)
    from Inr vr readCell_same_file [of r sch header] have s1: "same_file r r1" by simp
    from same_file_trans [OF s1 Cons.IH [of r1]] Inr vr show ?thesis
      by (auto split: sum.splits prod.splits)
  qed
qed

lemma readRow_same_file: "same_file r (state_of (readRow sch r))"
  using readCells_same_file [of r sch "s_headers sch"]
  by (auto simp: readRow_def split: sum.splits prod.splits)

lemma readRows_same_file: "same_file r (state_of (readRows sch n r))"
proof (induction n arbitrary: r)
  case 0
  show ?case by simp
next
  case (Suc n)
  show ?case
  proof (cases "readRow sch r")
    case (Inl er)
    with readRow_same_file [of r sch] show ?thesis by (cases er) simp
  next
    case (Inr vr)
    obtain v r1 where vr: "vr = (v, r1)" by (cases vr)
    from Inr vr readRow_same_file [of r sch] have s1: "same_file r r1" by simp
    from same_file_trans [OF s1 Suc.IH [of r1]] Inr vr show ?thesis
      by (auto split: sum.splits prod.splits)
  qed
qed

lemma read_buffer: "buffer (dr_feeder (state_of (read sch r))) = buffer (dr_feeder r)"
proof (cases "jump (dr_feeder r) (i_finished (s_internal sch))")
  case (Inl ef)
  then show ?thesis
    by (cases ef) (auto simp: read_def dest!: jump_buffer)
next
  case (Inr uf)
  obtain u f' where uf: "uf = (u, f')" by (cases uf)
  from Inr uf have b: "buffer f' = buffer (dr_feeder r)" by (auto dest!: jump_buffer)
  let ?r1 = "r\<lparr>dr_feeder := f'\<rparr>"
  from readRows_same_file [of ?r1 sch "nat (m_cases (s_meta sch))"] b
  have "buffer (dr_feeder (state_of (readRows sch (nat (m_cases (s_meta sch))) ?r1))) =
      buffer (dr_feeder r)"
    by (simp add: same_file_def)
  with Inr uf b show ?thesis
    by (auto simp: read_def split: sum.splits prod.splits dest!: jump_buffer)
qed

section \<open>The entry points and the cursor\<close>

lemma feeder_eqI: "buffer f1 = buffer f \<Longrightarrow> cursor f1 = cursor f \<Longrightarrow> f1 = (f :: Feeder)"
  by (cases f, cases f1) simp

lemma finally_jump_buffer: "buffer (snd (finally_jump p (out, f))) = buffer f"
  by (cases out) (auto simp: finally_jump_def jump_def)

lemma finally_jump_restores:
  assumes "in_range f" and "buffer f1 = buffer f" and "\<forall>e. out \<noteq> Thrown e"
  shows "finally_jump (position f) (out, f1) = (out, f)"
proof -
  from assms(1,2) have "jump f1 (cursor f) = Inr ((), f1\<lparr>cursor := cursor f\<rparr>)"
    by (simp add: jump_def in_range_def)
  moreover from assms(2) have "f1\<lparr>cursor := cursor f\<rparr> = f"
    by (intro feeder_eqI) simp_all
  ultimately show ?thesis
    using assms(3) by (cases out) (simp_all add: finally_jump_def position_def)
qed

lemma finally_jump_Resolved:
  assumes "finally_jump p (out, f1) = (Resolved v, f2)"
  shows "out = Resolved v \<and> f2 = f1\<lparr>cursor := p\<rparr> \<and> 0 \<le> p \<and> p \<le> int (length (buffer f1))"
  using assms
  by (cases out) (auto simp: finally_jump_def jump_def split: if_splits)

lemma meta_executor_buffer: "buffer (snd (meta_executor f)) = buffer f"
  by (auto simp: meta_executor_def Let_def split: sum.splits prod.splits
        dest!: feeder_next_buffer)

lemma meta_executor_not_thrown: "fst (meta_executor f) \<noteq> Thrown e"
  by (auto simp: meta_executor_def Let_def split: sum.splits prod.splits)

lemma meta_buffer: "buffer (snd (meta f)) = buffer f"
proof -
  have "jump f 0 = Inr ((), f\<lparr>cursor := 0\<rparr>)" by (simp add: jump_def)
  then show ?thesis
    using finally_jump_buffer [of "position f" "fst (meta_executor (f\<lparr>cursor := 0\<rparr>))"
        "snd (meta_executor (f\<lparr>cursor := 0\<rparr>))"]
      meta_executor_buffer [of "f\<lparr>cursor := 0\<rparr>"]
    by (simp add: meta_def Let_def)
qed

lemma meta_not_thrown: "fst (meta f) \<noteq> Thrown e"
proof -
  have j: "jump f 0 = Inr ((), f\<lparr>cursor := 0\<rparr>)" by (simp add: jump_def)
  obtain out f1 where ex: "meta_executor (f\<lparr>cursor := 0\<rparr>) = (out, f1)"
    by (cases "meta_executor (f\<lparr>cursor := 0\<rparr>)")
  with meta_executor_not_thrown [of "f\<lparr>cursor := 0\<rparr>"] have "\<forall>e. out \<noteq> Thrown e" by auto
  then have "fst (finally_jump (position f) (out, f1)) \<noteq> Thrown e"
    by (cases out) (auto simp: finally_jump_def split: sum.splits prod.splits)
  with j ex show ?thesis by (simp add: meta_def Let_def)
qed

lemma meta_restores:
  assumes "in_range f"
  shows "snd (meta f) = f"
proof -
  have j: "jump f 0 = Inr ((), f\<lparr>cursor := 0\<rparr>)" by (simp add: jump_def)
  obtain out f1 where ex: "meta_executor (f\<lparr>cursor := 0\<rparr>) = (out, f1)"
    by (cases "meta_executor (f\<lparr>cursor := 0\<rparr>)")
  with meta_executor_not_thrown [of "f\<lparr>cursor := 0\<rparr>"] have nt: "\<forall>e. out \<noteq> Thrown e" by auto
  from ex meta_executor_buffer [of "f\<lparr>cursor := 0\<rparr>"] have b: "buffer f1 = buffer f" by simp
  from finally_jump_restores [OF assms b nt] j ex show ?thesis
    by (simp add: meta_def Let_def)
qed

lemma readFields_buffer:
  "readFields f = Some (Inr (v, f')) \<Longrightarrow> buffer f' = buffer f"
  "readFields f = Some (Inl (e, f')) \<Longrightarrow> buffer f' = buffer f"
  using readFields_loop_buffer [of f "[]"] by (auto simp: readFields_def)

lemma readInternal_buffer:
  "readInternal f = Some (Inr (v, f')) \<Longrightarrow> buffer f' = buffer f"
  "readInternal f = Some (Inl (e, f')) \<Longrightarrow> buffer f' = buffer f"
  using readInternal_loop_buffer [of empty_Internal f] by (auto simp: readInternal_def)

text \<open>What \<^verbatim>\<open>schema\<close> hands to its \<^verbatim>\<open>finally\<close> handler.\<close>

lemma schema_cases:
  assumes "schema f = Some (out, f')"
  obtains (thrown) e where "out = Thrown e"
  | (settled) out1 f1 where "buffer f1 = buffer f" "\<forall>e. out1 \<noteq> Thrown e"
      "(out, f') = finally_jump (position f) (out1, f1)"
proof -
  obtain mo fa where m: "meta f = (mo, fa)" by (cases "meta f")
  from m meta_buffer [of f] have ba: "buffer fa = buffer f" by simp
  from m meta_not_thrown [of f] have mnt: "\<forall>e. mo \<noteq> Thrown e" by auto
  show thesis
  proof (cases mo)
    case (Thrown e)
    with mnt show ?thesis by simp
  next
    case (Rejected e)
    with assms m have "(out, f') = finally_jump (position f) (Rejected e, fa)"
      by (simp add: schema_def Let_def)
    with ba show ?thesis by (intro settled [of fa "Rejected e"]) simp_all
  next
    case (Resolved mv)
    show ?thesis
    proof (cases "jump fa 176")
      case (Inl ef)
      obtain e f2 where ef: "ef = (e, f2)" by (cases ef)
      from Inl ef have "buffer f2 = buffer fa" by (auto dest!: jump_buffer)
      moreover from assms m Resolved Inl ef
      have "(out, f') = finally_jump (position f) (Rejected e, f2)"
        by (simp add: schema_def Let_def)
      ultimately show ?thesis using ba by (intro settled [of f2 "Rejected e"]) simp_all
    next
      case (Inr uf)
      obtain u f2 where uf: "uf = (u, f2)" by (cases uf)
      from Inr uf have b2: "buffer f2 = buffer f" using ba by (auto dest!: jump_buffer)
      show ?thesis
      proof (cases "readFields f2")
        case None
        with assms m Resolved Inr uf show ?thesis by (simp add: schema_def Let_def)
      next
        case (Some res)
        show ?thesis
        proof (cases res)
          case (Inl ef)
          obtain e f3 where ef: "ef = (e, f3)" by (cases ef)
          from Some Inl ef have "buffer f3 = buffer f" using b2 by (auto dest!: readFields_buffer)
          moreover from assms m Resolved \<open>jump fa 176 = Inr uf\<close> uf Some Inl ef
          have "(out, f') = finally_jump (position f) (Rejected e, f3)"
            by (simp add: schema_def Let_def)
          ultimately show ?thesis by (intro settled [of f3 "Rejected e"]) simp_all
        next
          case (Inr hf)
          obtain hdrs f3 where hf: "hf = (hdrs, f3)" by (cases hf)
          from Some Inr hf have b3: "buffer f3 = buffer f"
            using b2 by (auto dest!: readFields_buffer)
          show ?thesis
          proof (cases "readInternal f3")
            case None
            with assms m Resolved \<open>jump fa 176 = Inr uf\<close> uf Some Inr hf show ?thesis
              by (simp add: schema_def Let_def)
          next
            case s2: (Some res2)
            show ?thesis
            proof (cases res2)
              case (Inl ef)
              obtain e f4 where ef: "ef = (e, f4)" by (cases ef)
              from s2 Inl ef have "buffer f4 = buffer f"
                using b3 by (auto dest!: readInternal_buffer)
              moreover from assms m Resolved \<open>jump fa 176 = Inr uf\<close> uf Some Inr hf s2 Inl ef
              have "(out, f') = finally_jump (position f) (Rejected e, f4)"
                by (simp add: schema_def Let_def)
              ultimately show ?thesis by (intro settled [of f4 "Rejected e"]) simp_all
            next
              case i: (Inr intf)
              obtain internal f4 where intf: "intf = (internal, f4)" by (cases intf)
              from s2 i intf have "buffer f4 = buffer f"
                using b3 by (auto dest!: readInternal_buffer)
              moreover from assms m Resolved \<open>jump fa 176 = Inr uf\<close> uf Some Inr hf s2 i intf
              have "(out, f') = finally_jump (position f)
                  (Resolved \<lparr>s_meta = mv, s_headers = hdrs, s_internal = internal\<rparr>, f4)"
                by (simp add: schema_def Let_def)
              ultimately show ?thesis
                by (intro settled [of f4 "Resolved \<lparr>s_meta = mv, s_headers = hdrs,
                  s_internal = internal\<rparr>"]) simp_all
            qed
          qed
        qed
      qed
    qed
  qed
qed

lemma schema_restores:
  assumes "in_range f" and "schema f = Some (out, f')"
  shows "f' = f"
  using assms(2)
proof (cases rule: schema_cases)
  case (thrown e)
  obtain mo fa where m: "meta f = (mo, fa)" by (cases "meta f")
  with meta_not_thrown [of f] have "\<forall>e. mo \<noteq> Thrown e" by auto
  with assms(2) m thrown have False
    by (cases mo)
       (auto simp: schema_def Let_def finally_jump_def split: sum.splits prod.splits option.splits)
  then show ?thesis ..
next
  case (settled out1 f1)
  from finally_jump_restores [OF assms(1) settled(1,2)] settled(3) show ?thesis by simp
qed

lemma schema_Resolved:
  assumes "schema f = Some (Resolved s, f')"
  shows "f' = f \<and> in_range f"
  using assms
proof (cases rule: schema_cases)
  case (thrown e)
  then show ?thesis by simp
next
  case (settled out1 f1)
  from settled(3) finally_jump_Resolved [of "position f" out1 f1 s f']
  have "f' = f1\<lparr>cursor := position f\<rparr>" "0 \<le> position f"
    "position f \<le> int (length (buffer f1))"
    by simp_all
  with settled(1) show ?thesis
    by (auto simp: in_range_def position_def intro: feeder_eqI)
qed

lemma headers_restores:
  assumes "in_range f" and "headers f = Some (Resolved hdrs, f')"
  shows "f' = f"
proof (cases "jump f 176")
  case (Inl ef)
  with assms(2) show ?thesis by (auto simp: headers_def Let_def split: prod.splits)
next
  case (Inr uf)
  obtain u f0 where uf: "uf = (u, f0)" by (cases uf)
  from Inr uf have b0: "buffer f0 = buffer f" by (auto dest!: jump_buffer)
  from assms(2) Inr uf obtain f1 where
    rf: "readFields f0 = Some (Inr (hdrs, f1))" and
    fin: "finally_jump (position f) (Resolved hdrs, f1) = (Resolved hdrs, f')"
    by (auto simp: headers_def Let_def finally_jump_def
          split: option.splits sum.splits prod.splits)
  from rf b0 have "buffer f1 = buffer f" by (auto dest!: readFields_buffer)
  from finally_jump_restores [OF assms(1) this, of "Resolved hdrs"] fin show ?thesis by simp
qed

lemma all_restores:
  assumes "in_range f" and "all f = Some (out, f')"
  shows "f' = f"
proof (cases "schema f")
  case None
  with assms(2) show ?thesis by (simp add: all_def Let_def)
next
  case (Some sf)
  obtain so f1 where sf: "sf = (so, f1)" by (cases sf)
  from schema_restores [OF assms(1), of so f1] Some sf have f1: "f1 = f" by simp
  show ?thesis
  proof (cases so)
    case (Thrown e)
    with assms(2) Some sf f1 show ?thesis by (simp add: all_def Let_def)
  next
    case (Rejected e)
    from finally_jump_restores [OF assms(1) refl, of "Rejected e :: Parsed settled"]
    have "finally_jump (position f) (Rejected e :: Parsed settled, f) = (Rejected e, f)"
      by simp
    moreover from assms(2) Some sf f1 Rejected
    have "finally_jump (position f) (Rejected e, f) = (out, f')"
      by (simp add: all_def Let_def)
    ultimately show ?thesis by simp
  next
    case (Resolved s)
    let ?res = "read s (new_DataReader f)"
    have b: "buffer (dr_feeder (state_of ?res)) = buffer f"
      using read_buffer [of s "new_DataReader f"] by (simp add: new_DataReader_def)
    show ?thesis
    proof (cases ?res)
      case (Inl er)
      obtain e r where er: "er = (e, r)" by (cases er)
      from b Inl er have "buffer (dr_feeder r) = buffer f" by simp
      from finally_jump_restores [OF assms(1) this, of "Rejected e :: Parsed settled"]
        assms(2) Some sf f1 Resolved Inl er
      show ?thesis by (simp add: all_def Let_def)
    next
      case (Inr vr)
      obtain rows r where vr: "vr = (rows, r)" by (cases vr)
      from b Inr vr have "buffer (dr_feeder r) = buffer f" by simp
      from finally_jump_restores [OF assms(1) this,
          of "Resolved \<lparr>p_meta = s_meta s, p_headers = s_headers s,
                p_internal = s_internal s, p_rows = rows\<rparr>"]
        assms(2) Some sf f1 Resolved Inr vr
      show ?thesis by (simp add: all_def Let_def)
    qed
  qed
qed

lemma collect_length: "collect xs = Inr vs \<Longrightarrow> length vs = length xs"
  by (induction xs arbitrary: vs) (auto split: sum.splits)

lemma array_map_length: "array_map n g = Inr vs \<Longrightarrow> length vs = nat n"
  by (auto simp: array_map_def split: if_splits dest!: collect_length)

text \<open>The shape of the missing-value specification of a numeric field: a positive count
  \<open>n\<close> gives \<open>n\<close> discrete codes and no range, \<open>-2\<close> gives a range and no code, \<open>-3\<close>
  gives a range and one code; the block read has \<open>8 * |count|\<close> bytes.\<close>

lemma readFieldMissing_numeric_shape:
  assumes "readFieldMissing f True code = Inr (m, f')"
  shows "(0 < code \<longrightarrow> length (mv_codes m) = nat code \<and> mv_range m = None) \<and>
    (code = - 2 \<longrightarrow> mv_codes m = [] \<and> mv_range m \<noteq> None) \<and>
    (code = - 3 \<longrightarrow> length (mv_codes m) = 1 \<and> mv_range m \<noteq> None) \<and>
    mv_strings m = [] \<and> cursor f' = cursor f + 8 * \<bar>code\<bar>"
proof -
  from assms obtain chunk where
    nx: "feeder_next f (8 * \<bar>code\<bar>) = Inr (chunk, f')"
    by (auto simp: readFieldMissing_def split: sum.splits prod.splits)
  then have c: "cursor f' = cursor f + 8 * \<bar>code\<bar>"
    by (auto simp: feeder_next_def Let_def split: if_splits)
  consider (pos) "0 < code" | (range) "code = - 2" | (both) "code = - 3"
    | (other) "\<not> 0 < code" "code \<noteq> - 2" "code \<noteq> - 3"
    by linarith
  then show ?thesis
  proof cases
    case pos
    with assms nx c show ?thesis
      by (auto simp: readFieldMissing_def bind_e_def readFieldMissingCodes_def
            split: sum.splits dest!: array_map_length)
  next
    case range
    with assms nx c show ?thesis
      by (auto simp: readFieldMissing_def bind_e_def split: sum.splits)
  next
    case both
    with assms nx c show ?thesis
      by (auto simp: readFieldMissing_def bind_e_def readFieldMissingCodes_def
            split: sum.splits dest!: array_map_length)
  next
    case other
    with assms nx c show ?thesis
      by (auto simp: readFieldMissing_def bind_e_def split: sum.splits if_splits)
  qed
qed

lemma readField_no_missing_block:
  assumes "feeder_next f 28 = Inr (chunk, f1)" and "getInt32 chunk 0 = Inr code"
    and "getInt32 chunk 4 = Inr 0" and "getInt32 chunk 8 = Inr 0"
  shows "\<exists>h. readField f = Inr (h, f1) \<and> h_missing h = no_missing"
  using assms by (simp add: readField_def bind_e_def Let_def)

lemma decode_inj: "decode bs = decode cs \<Longrightarrow> bs = cs"
proof -
  have g: "char_of (unat b) = char_of (unat c) \<Longrightarrow> b = c" for b c :: byte
  proof -
    assume "char_of (unat b) = char_of (unat c)"
    then have "(of_char (char_of (unat b)) :: nat) = of_char (char_of (unat c))" by simp
    then have "unat b mod 256 = unat c mod 256" by simp
    moreover have "unat b < 256" "unat c < 256"
      using unsigned_less [of b] unsigned_less [of c] by simp_all
    ultimately have "unat b = unat c" by simp
    then show "b = c" by (simp add: word_unat_eq_iff)
  qed
  assume "decode bs = decode cs"
  then show ?thesis
    unfolding decode_def
    by (induction bs arbitrary: cs) (auto dest: g)
qed

lemma decode_signature: "decode [0x24, 0x46, 0x4C, 0x32] = ''$FL2''"
  by (simp add: decode_def char_of_def bit_Suc_0_iff)

lemma decode_is_signature: "decode bs = ''$FL2'' \<longleftrightarrow> bs = [0x24, 0x46, 0x4C, 0x32]"
  using decode_inj [of bs "[0x24, 0x46, 0x4C, 0x32]"] decode_signature by auto

text \<open>
  C7. \<^verbatim>\<open>meta\<close> through a feeder whose cursor lies in the buffer. If the buffer has at least
  176 bytes and its first 4 bytes differ from the signature \<^verbatim>\<open>$FL2\<close>, the promise is
  rejected with the error that names the expected signature and the actual one (the decoded
  first 4 bytes). If the buffer has fewer than 176 bytes, the promise is rejected with the
  end-of-file error, whatever its first bytes are. In both cases no metadata is produced
  and the feeder is left as it was.
\<close>

theorem meta_rejects_wrong_signature:
  assumes "0 \<le> cursor f" and "cursor f \<le> int (length (buffer f))"
  shows "(176 \<le> length (buffer f) \<longrightarrow> take 4 (buffer f) \<noteq> [0x24, 0x46, 0x4C, 0x32] \<longrightarrow>
            meta f = (Rejected (FileIsNotASav ''$FL2'' (decode (take 4 (buffer f)))), f) \<and>
            decode (take 4 (buffer f)) \<noteq> ''$FL2'') \<and>
         (length (buffer f) < 176 \<longrightarrow> meta f = (Rejected UnexpectedEndOfFile, f))"
proof (intro conjI impI)
  let ?f0 = "f\<lparr>cursor := 0\<rparr>"
  let ?f1 = "f\<lparr>cursor := 176\<rparr>"
  have j0: "jump f 0 = Inr ((), ?f0)" by (simp add: jump_def)
  have jp: "jump (f\<lparr>cursor := c\<rparr>) (cursor f) = Inr ((), f)" for c
    using assms by (simp add: jump_def)
  {
    assume long: "176 \<le> length (buffer f)"
      and diff: "take 4 (buffer f) \<noteq> [0x24, 0x46, 0x4C, 0x32]"
    have nx: "feeder_next ?f0 176 = Inr (take 176 (buffer f), ?f1)"
      using feeder_next_ok [of ?f0 176] long by simp
    have sl: "slice_buf (take 176 (buffer f)) 0 4 = take 4 (buffer f)"
      using long by (simp add: slice_buf_def Let_def min_def)
    show ne: "decode (take 4 (buffer f)) \<noteq> ''$FL2''"
      using diff by (simp add: decode_is_signature)
    have ex: "meta_executor ?f0 =
        (Rejected (FileIsNotASav ''$FL2'' (decode (take 4 (buffer f)))), ?f1)"
      using ne by (simp add: meta_executor_def nx sl Let_def)
    show "meta f = (Rejected (FileIsNotASav ''$FL2'' (decode (take 4 (buffer f)))), f)"
      by (simp add: meta_def position_def j0 ex finally_jump_def jp)
  }
  {
    assume short: "length (buffer f) < 176"
    have nx: "feeder_next ?f0 176 = Inl (UnexpectedEndOfFile, ?f0)"
      using short by (simp add: feeder_next_def)
    have ex: "meta_executor ?f0 = (Rejected UnexpectedEndOfFile, ?f0)"
      by (simp add: meta_executor_def nx)
    show "meta f = (Rejected UnexpectedEndOfFile, f)"
      by (simp add: meta_def position_def j0 ex finally_jump_def jp)
  }
qed

theorem meta_rejects_wrong_signature_witness:
  "meta (new_Feeder (replicate 176 0)) =
     (Rejected (FileIsNotASav ''$FL2'' [CHR 0x00, CHR 0x00, CHR 0x00, CHR 0x00]),
      new_Feeder (replicate 176 0)) \<and>
   meta (new_Feeder [0x24, 0x46, 0x4C, 0x32]) =
     (Rejected UnexpectedEndOfFile, new_Feeder [0x24, 0x46, 0x4C, 0x32])"
proof -
  let ?F = "new_Feeder (replicate 176 0)"
  let ?G = "new_Feeder [0x24, 0x46, 0x4C, 0x32]"
  have t: "take 4 (buffer ?F) = [0, 0, 0, 0]"
    by (simp add: new_Feeder_def numeral_eq_Suc)
  have a: "0 \<le> cursor ?F" "cursor ?F \<le> int (length (buffer ?F))"
    by (simp_all add: new_Feeder_def)
  have b: "176 \<le> length (buffer ?F)" "take 4 (buffer ?F) \<noteq> [0x24, 0x46, 0x4C, 0x32]"
    unfolding t by (simp_all add: new_Feeder_def)
  have c: "0 \<le> cursor ?G" "cursor ?G \<le> int (length (buffer ?G))"
    by (simp_all add: new_Feeder_def)
  have s: "length (buffer ?G) < 176"
    by (simp add: new_Feeder_def)
  have d: "decode [0, 0, 0, 0] = [CHR 0x00, CHR 0x00, CHR 0x00, CHR 0x00]"
    by (simp add: decode_def char_of_def)
  from meta_rejects_wrong_signature [OF a] b
  have "meta ?F = (Rejected (FileIsNotASav ''$FL2'' (decode (take 4 (buffer ?F)))), ?F)"
    by blast
  moreover from meta_rejects_wrong_signature [OF c] s
  have "meta ?G = (Rejected UnexpectedEndOfFile, ?G)"
    by blast
  ultimately show ?thesis
    unfolding t d by (intro conjI)
qed

text \<open>
  A buffer of the 4 bytes \<^verbatim>\<open>ABCD\<close>: its first 4 bytes differ from the signature, but the
  read of the 176 header bytes fails first, and the promise is rejected with the
  end-of-file error, which names no signature.
\<close>

theorem meta_short_buffer_counterexample:
  "meta (new_Feeder [65, 66, 67, 68]) = (Rejected UnexpectedEndOfFile, new_Feeder [65, 66, 67, 68]) \<and>
   take 4 [65, 66, 67, 68 :: byte] \<noteq> [0x24, 0x46, 0x4C, 0x32]"
  by (simp add: meta_def new_Feeder_def position_def jump_def meta_executor_def
        feeder_next_def finally_jump_def)

text \<open>
  C6. A numeric field with one declared missing value whose 8 bytes are the little-endian
  double 1.0 (\<^verbatim>\<open>00 00 00 00 00 00 F0 3F\<close>): the discrete code that \<^verbatim>\<open>readFieldMissing\<close>
  returns is the big-endian reading of the bytes, bit pattern \<open>0x000000000000F03F\<close>, not
  the little-endian one, \<open>0x3FF0000000000000\<close>.
\<close>

theorem readFieldMissing_codes_big_endian:
  "readFieldMissing \<lparr>buffer = [0, 0, 0, 0, 0, 0, 0xF0, 0x3F], cursor = 0\<rparr> True 1 =
     Inr (\<lparr>mv_codes = [F64 0x000000000000F03F], mv_range = None, mv_strings = []\<rparr>,
          \<lparr>buffer = [0, 0, 0, 0, 0, 0, 0xF0, 0x3F], cursor = 8\<rparr>) \<and>
   getFloat64 [0, 0, 0, 0, 0, 0, 0xF0, 0x3F] 0 True = Inr (F64 0x3FF0000000000000)"
  by (simp add: readFieldMissing_def feeder_next_def slice_buf_def bind_e_def
        readFieldMissingCodes_def array_map_def getFloat64_def view_bytes_def uint_le_def)

text \<open>
  C2. \<^verbatim>\<open>headers\<close> on a feeder at position 0 over a buffer of 176 bytes: the jump to 176
  succeeds, \<^verbatim>\<open>readFields\<close> fails at the end of the buffer, and the call throws with the
  cursor left at 176 instead of the entry position 0.
\<close>

theorem headers_failure_moves_cursor:
  "headers (new_Feeder (replicate 176 0)) =
     Some (Thrown UnexpectedEndOfFile, \<lparr>buffer = replicate 176 0, cursor = 176\<rparr>) \<and>
   cursor (new_Feeder (replicate 176 0)) = 0"
  by (simp add: headers_def new_Feeder_def position_def jump_def readFields_def
        readFields_loop.simps feeder_next_def)

lemma readRows_length: "readRows sch n r = Inr (rows, r') \<Longrightarrow> length rows = n"
proof (induction n arbitrary: r rows)
  case 0
  then show ?case by simp
next
  case (Suc n)
  from Suc.prems obtain row r1 rest where
    "readRow sch r = Inr (row, r1)" "readRows sch n r1 = Inr (rest, r')" "rows = row # rest"
    by (auto split: sum.splits prod.splits)
  with Suc.IH [of r1 rest] show ?case by simp
qed

lemma readRows_in_order:
  "readRows sch n r = Inr (rows, r') \<Longrightarrow> i < n \<Longrightarrow>
   \<exists>ri ri'. after_rows sch i r = Inr ri \<and> readRow sch ri = Inr (rows ! i, ri')"
proof (induction n arbitrary: r rows i)
  case 0
  then show ?case by simp
next
  case (Suc n)
  from Suc.prems(1) obtain row r1 rest where
    rr: "readRow sch r = Inr (row, r1)" and rest: "readRows sch n r1 = Inr (rest, r')"
    and rows: "rows = row # rest"
    by (auto split: sum.splits prod.splits)
  show ?case
  proof (cases i)
    case 0
    with rr rows show ?thesis by simp
  next
    case (Suc j)
    with Suc.prems(2) have "j < n" by simp
    from Suc.IH [OF rest this] Suc rr rows show ?thesis by simp
  qed
qed

lemma read_rows:
  assumes "read sch r = Inr (rows, r')"
  shows "0 \<le> m_cases (s_meta sch) \<and>
    (\<exists>r2. readRows sch (nat (m_cases (s_meta sch)))
            (r\<lparr>dr_feeder := (dr_feeder r)\<lparr>cursor := i_finished (s_internal sch)\<rparr>\<rparr>) =
          Inr (rows, r2))"
  using assms
  by (auto simp: read_def jump_def split: sum.splits prod.splits if_splits)

text \<open>
  C1. When the full read resolves, the rows array has exactly \<^verbatim>\<open>cases\<close> rows (and the
  declared case count is not negative). The rows are decoded one after the other from the
  case-data start offset \<^verbatim>\<open>finished\<close>: row \<open>i\<close> is what \<^verbatim>\<open>readRow\<close> returns in the reader
  state reached after rows \<open>0, ..., i - 1\<close>. The feeder is left as it was.
\<close>

theorem all_rows_count:
  assumes "all f = Some (Resolved parsed, f')"
  shows "int (length (p_rows parsed)) = m_cases (p_meta parsed) \<and>
    (\<forall>i < length (p_rows parsed). \<exists>ri ri'.
       after_rows \<lparr>s_meta = p_meta parsed, s_headers = p_headers parsed,
                   s_internal = p_internal parsed\<rparr> i
         ((new_DataReader f)\<lparr>dr_feeder := f\<lparr>cursor := i_finished (p_internal parsed)\<rparr>\<rparr>) =
         Inr ri \<and>
       readRow \<lparr>s_meta = p_meta parsed, s_headers = p_headers parsed,
                s_internal = p_internal parsed\<rparr> ri = Inr (p_rows parsed ! i, ri')) \<and>
    f' = f"
proof -
  from assms obtain sch f1 where sc: "schema f = Some (Resolved sch, f1)"
    by (auto simp: all_def Let_def finally_jump_def
          split: option.splits sum.splits prod.splits settled.splits)
  from schema_Resolved [OF sc] have f1: "f1 = f" and rng: "in_range f" by simp_all
  from assms sc f1 obtain rows r where rd: "read sch (new_DataReader f) = Inr (rows, r)"
    and fin: "finally_jump (position f)
        (Resolved \<lparr>p_meta = s_meta sch, p_headers = s_headers sch,
                   p_internal = s_internal sch, p_rows = rows\<rparr>, dr_feeder r) =
        (Resolved parsed, f')"
    by (auto simp: all_def Let_def finally_jump_def split: sum.splits prod.splits)
  from finally_jump_Resolved [OF fin]
  have parsed: "parsed = \<lparr>p_meta = s_meta sch, p_headers = s_headers sch,
      p_internal = s_internal sch, p_rows = rows\<rparr>"
    by simp
  then have s: "\<lparr>s_meta = p_meta parsed, s_headers = p_headers parsed,
      s_internal = p_internal parsed\<rparr> = sch"
    by simp
  from read_rows [OF rd] obtain r2 where nn: "0 \<le> m_cases (s_meta sch)"
    and rows: "readRows sch (nat (m_cases (s_meta sch)))
        ((new_DataReader f)\<lparr>dr_feeder := f\<lparr>cursor := i_finished (s_internal sch)\<rparr>\<rparr>) =
        Inr (rows, r2)"
    by (auto simp: new_DataReader_def)
  from readRows_length [OF rows] nn have len: "int (length rows) = m_cases (s_meta sch)"
    by simp
  from all_restores [OF rng assms] have rest: "f' = f" .
  have ord: "\<forall>i < length rows. \<exists>ri ri'.
       after_rows sch i
         ((new_DataReader f)\<lparr>dr_feeder := f\<lparr>cursor := i_finished (s_internal sch)\<rparr>\<rparr>) =
         Inr ri \<and>
       readRow sch ri = Inr (rows ! i, ri')"
    using readRows_in_order [OF rows] readRows_length [OF rows] by simp
  from len ord rest show ?thesis
    unfolding s by (simp add: parsed)
qed

lemma decode_spaces: "decode (replicate n 32) = replicate n (CHR '' '')"
  by (induction n) (simp_all add: decode_def char_of_def bit_Suc_0_iff)

lemma trim_spaces: "trim (replicate n (CHR '' '')) = []"
proof -
  have "dropWhile is_space (replicate n (CHR '' '')) = []"
    by (induction n) (simp_all add: is_space_def)
  then show ?thesis by (simp add: trim_def)
qed

lemma example_file_length: "length example_file = 240"
  by (simp add: example_file_def file_header_def file_dictionary_def file_data_def)

lemma example_header_chunk:
  "feeder_next \<lparr>buffer = example_file, cursor = 0\<rparr> 176 =
     Inr (file_header, \<lparr>buffer = example_file, cursor = 176\<rparr>)"
proof -
  have "take 176 example_file = file_header"
    by (simp add: example_file_def file_header_def)
  then show ?thesis
    using feeder_next_ok [of "\<lparr>buffer = example_file, cursor = 0\<rparr>" 176]
    by (simp add: example_file_length)
qed

lemma file_header_fields: "meta_fields file_header = Inr file_meta"
proof -
  have p: "slice_buf file_header 4 64 = replicate 60 32"
    by (simp add: slice_buf_def file_header_def)
  have d: "slice_buf file_header 92 101 = replicate 9 32"
    by (simp add: slice_buf_def file_header_def Let_def)
  have t: "slice_buf file_header 101 109 = replicate 8 32"
    by (simp add: slice_buf_def file_header_def Let_def)
  have l: "slice_buf file_header 109 173 = replicate 64 32"
    by (simp add: slice_buf_def file_header_def Let_def)
  have i: "getInt32 file_header 64 = Inr 2" "getInt32 file_header 68 = Inr 1"
    "getInt32 file_header 72 = Inr 0" "getInt32 file_header 76 = Inr 0"
    "getInt32 file_header 80 = Inr 3"
    by (simp_all add: file_header_def eval_view)
  have b: "getFloat64 file_header 84 True = Inr (F64 0x4059000000000000)"
    by (simp add: file_header_def getFloat64_def view_bytes_def uint_le_def)
  show ?thesis
    by (simp add: meta_fields_def bind_e_def i b p d t l decode_spaces trim_spaces
          file_meta_def)
qed

lemma example_meta:
  "meta \<lparr>buffer = example_file, cursor = 0\<rparr> =
     (Resolved file_meta, \<lparr>buffer = example_file, cursor = 0\<rparr>)"
proof -
  have m: "decode (slice_buf file_header 0 4) = ''$FL2''"
    by (simp add: slice_buf_def file_header_def decode_def char_of_def bit_Suc_0_iff)
  show ?thesis
    by (simp add: meta_def position_def jump_def meta_executor_def example_header_chunk
          m file_header_fields finally_jump_def example_file_length)
qed

lemma example_fields:
  "readFields \<lparr>buffer = example_file, cursor = 176\<rparr> =
     Some (Inr ([file_field], \<lparr>buffer = example_file, cursor = 208\<rparr>))"
proof -
  have d: "drop 176 example_file = file_dictionary @ file_data"
    by (simp add: example_file_def file_header_def)
  have n1: "feeder_next \<lparr>buffer = example_file, cursor = 176\<rparr> 4 =
      Inr ([2, 0, 0, 0], \<lparr>buffer = example_file, cursor = 180\<rparr>)"
    using feeder_next_ok [of "\<lparr>buffer = example_file, cursor = 176\<rparr>" 4]
    by (simp add: example_file_length d file_dictionary_def)
  have d2: "drop 180 example_file = drop 4 file_dictionary @ file_data"
    by (simp add: example_file_def file_header_def file_dictionary_def)
  have n2: "feeder_next \<lparr>buffer = example_file, cursor = 180\<rparr> 28 =
      Inr (take 28 (drop 4 file_dictionary), \<lparr>buffer = example_file, cursor = 208\<rparr>)"
    using feeder_next_ok [of "\<lparr>buffer = example_file, cursor = 180\<rparr>" 28]
    by (simp add: example_file_length d2 file_dictionary_def)
  have rf: "readField \<lparr>buffer = example_file, cursor = 180\<rparr> =
      Inr (file_field, \<lparr>buffer = example_file, cursor = 208\<rparr>)"
    by (simp add: readField_def n2 position_def Let_def)
       (simp add: file_dictionary_def eval_view bind_e_def slice_buf_def file_field_def
          decode_def char_of_def bit_Suc_0_iff trim_def is_space_def)
  have d3: "drop 208 example_file = drop 32 file_dictionary @ file_data"
    by (simp add: example_file_def file_header_def file_dictionary_def)
  have n3: "feeder_next \<lparr>buffer = example_file, cursor = 208\<rparr> 4 =
      Inr ([231, 3, 0, 0], \<lparr>buffer = example_file, cursor = 212\<rparr>)"
    using feeder_next_ok [of "\<lparr>buffer = example_file, cursor = 208\<rparr>" 4]
    by (simp add: example_file_length d3 file_dictionary_def)
  have g2: "getInt32 [2, 0, 0, 0] 0 = Inr 2" by (simp add: eval_view)
  have g999: "getInt32 [231, 3, 0, 0] 0 = Inr 999" by (simp add: eval_view)
  have j: "jump \<lparr>buffer = example_file, cursor = 212\<rparr>
      (position \<lparr>buffer = example_file, cursor = 212\<rparr> - 4) =
      Inr ((), \<lparr>buffer = example_file, cursor = 208\<rparr>)"
    by (simp add: jump_def position_def example_file_length)
  have hc: "h_code file_field = 0" by (simp add: file_field_def)
  have last: "readFields_loop \<lparr>buffer = example_file, cursor = 208\<rparr> [file_field] =
      Some (Inr ([file_field], \<lparr>buffer = example_file, cursor = 208\<rparr>))"
    by (subst readFields_loop.simps) (simp add: n3 g999 j)
  have "readFields_loop \<lparr>buffer = example_file, cursor = 176\<rparr> [] =
      Some (Inr ([file_field], \<lparr>buffer = example_file, cursor = 208\<rparr>))"
    by (subst readFields_loop.simps) (simp add: n1 g2 rf hc last)
  then show ?thesis by (simp add: readFields_def)
qed

lemma example_internal:
  "readInternal \<lparr>buffer = example_file, cursor = 208\<rparr> =
     Some (Inr (empty_Internal\<lparr>i_finished := 216\<rparr>, \<lparr>buffer = example_file, cursor = 216\<rparr>))"
proof -
  have d3: "drop 208 example_file = drop 32 file_dictionary @ file_data"
    by (simp add: example_file_def file_header_def file_dictionary_def)
  have n3: "feeder_next \<lparr>buffer = example_file, cursor = 208\<rparr> 4 =
      Inr ([231, 3, 0, 0], \<lparr>buffer = example_file, cursor = 212\<rparr>)"
    using feeder_next_ok [of "\<lparr>buffer = example_file, cursor = 208\<rparr>" 4]
    by (simp add: example_file_length d3 file_dictionary_def)
  have n4: "feeder_next \<lparr>buffer = example_file, cursor = 212\<rparr> 4 =
      Inr (take 4 (drop 212 example_file), \<lparr>buffer = example_file, cursor = 216\<rparr>)"
    using feeder_next_ok [of "\<lparr>buffer = example_file, cursor = 212\<rparr>" 4]
    by (simp add: example_file_length)
  have g999: "getInt32 [231, 3, 0, 0] 0 = Inr 999" by (simp add: eval_view)
  have z: "i_finished empty_Internal = 0" by (simp add: empty_Internal_def)
  have st: "readInternal_step empty_Internal \<lparr>buffer = example_file, cursor = 208\<rparr> =
      Inr (empty_Internal\<lparr>i_finished := 216\<rparr>, \<lparr>buffer = example_file, cursor = 216\<rparr>)"
    by (simp add: readInternal_step_def n3 g999 n4 position_def)
  have fin: "readInternal_loop (empty_Internal\<lparr>i_finished := 216\<rparr>)
      \<lparr>buffer = example_file, cursor = 216\<rparr> =
      Some (Inr (empty_Internal\<lparr>i_finished := 216\<rparr>, \<lparr>buffer = example_file, cursor = 216\<rparr>))"
    by (subst readInternal_loop.simps) simp
  have "readInternal_loop empty_Internal \<lparr>buffer = example_file, cursor = 208\<rparr> =
      Some (Inr (empty_Internal\<lparr>i_finished := 216\<rparr>, \<lparr>buffer = example_file, cursor = 216\<rparr>))"
    by (subst readInternal_loop.simps) (simp add: st fin z)
  then show ?thesis by (simp add: readInternal_def)
qed

lemma example_schema_resolved:
  "schema \<lparr>buffer = example_file, cursor = 0\<rparr> =
     Some (Resolved file_schema, \<lparr>buffer = example_file, cursor = 0\<rparr>)"
  by (simp add: schema_def position_def example_meta jump_def example_file_length
        example_fields example_internal finally_jump_def file_schema_def)

lemma example_rows:
  "read file_schema (new_DataReader \<lparr>buffer = example_file, cursor = 0\<rparr>) =
     Inr (file_rows,
          \<lparr>dr_feeder = \<lparr>buffer = example_file, cursor = 0\<rparr>, dr_position = 0,
           dr_instructions = None, dr_cursor = 8\<rparr>)"
proof -
  have d: "drop 216 example_file = file_data"
    by (simp add: example_file_def file_header_def file_dictionary_def)
  have d8: "take 8 (drop 224 example_file) = [0, 0, 0, 0, 0, 0, 0, 2]"
    by (simp add: example_file_def file_header_def file_dictionary_def file_data_def)
  have d16: "drop 232 example_file = [0, 0, 0, 0, 0, 0, 0, 3]"
    by (simp add: example_file_def file_header_def file_dictionary_def file_data_def)
  have r: "readRow file_schema
      \<lparr>dr_feeder = \<lparr>buffer = example_file, cursor = c\<rparr>, dr_position = 0,
       dr_instructions = None, dr_cursor = 8\<rparr> =
    (case feeder_next \<lparr>buffer = example_file, cursor = c\<rparr> 8 of
       Inl (e, f') \<Rightarrow> Inl (e, \<lparr>dr_feeder = f', dr_position = 0,
           dr_instructions = None, dr_cursor = 8\<rparr>)
     | Inr (chunk, f') \<Rightarrow>
         (case getFloat64 chunk 0 False of
            Inl e \<Rightarrow> Inl (e, \<lparr>dr_feeder = f', dr_position = 0,
              dr_instructions = None, dr_cursor = 8\<rparr>)
          | Inr v \<Rightarrow> Inr ([(''V1'', CellNumber v)], \<lparr>dr_feeder = f', dr_position = 0,
              dr_instructions = None, dr_cursor = 8\<rparr>)))" for c
    by (simp add: readRow_def file_schema_def file_field_def readCell_def readNumber_def
          file_meta_def uncompressedNumber_def empty_Internal_def new_Map_def
          split: sum.splits prod.splits)
  have n: "feeder_next \<lparr>buffer = example_file, cursor = 216\<rparr> 8 =
        Inr ([0, 0, 0, 0, 0, 0, 0, 1], \<lparr>buffer = example_file, cursor = 224\<rparr>)"
    "feeder_next \<lparr>buffer = example_file, cursor = 224\<rparr> 8 =
        Inr ([0, 0, 0, 0, 0, 0, 0, 2], \<lparr>buffer = example_file, cursor = 232\<rparr>)"
    "feeder_next \<lparr>buffer = example_file, cursor = 232\<rparr> 8 =
        Inr ([0, 0, 0, 0, 0, 0, 0, 3], \<lparr>buffer = example_file, cursor = 240\<rparr>)"
    using feeder_next_ok [of "\<lparr>buffer = example_file, cursor = 216\<rparr>" 8]
      feeder_next_ok [of "\<lparr>buffer = example_file, cursor = 224\<rparr>" 8]
      feeder_next_ok [of "\<lparr>buffer = example_file, cursor = 232\<rparr>" 8]
    by (simp_all add: example_file_length d d8 d16 file_data_def)
  have g: "getFloat64 [0, 0, 0, 0, 0, 0, 0, 1] 0 False = Inr (F64 1)"
    "getFloat64 [0, 0, 0, 0, 0, 0, 0, 2] 0 False = Inr (F64 2)"
    "getFloat64 [0, 0, 0, 0, 0, 0, 0, 3] 0 False = Inr (F64 3)"
    by (simp_all add: getFloat64_def view_bytes_def uint_le_def)
  have s: "m_cases (s_meta file_schema) = 3" "i_finished (s_internal file_schema) = 216"
    by (simp_all add: file_schema_def file_meta_def empty_Internal_def)
  have rows3: "readRows file_schema 3
      \<lparr>dr_feeder = \<lparr>buffer = example_file, cursor = 216\<rparr>, dr_position = 0,
       dr_instructions = None, dr_cursor = 8\<rparr> =
      Inr (file_rows,
       \<lparr>dr_feeder = \<lparr>buffer = example_file, cursor = 240\<rparr>, dr_position = 0,
        dr_instructions = None, dr_cursor = 8\<rparr>)"
    by (simp add: numeral_3_eq_3 r n g file_rows_def)
  show ?thesis
    by (simp add: read_def new_DataReader_def position_def jump_def example_file_length
          s rows3)
qed

lemma example_all:
  "all \<lparr>buffer = example_file, cursor = 0\<rparr> =
     Some (Resolved file_parsed, \<lparr>buffer = example_file, cursor = 0\<rparr>)"
proof -
  have s: "s_meta file_schema = file_meta" "s_headers file_schema = [file_field]"
    "s_internal file_schema = empty_Internal\<lparr>i_finished := 216\<rparr>"
    by (simp_all add: file_schema_def)
  show ?thesis
    by (simp add: all_def position_def example_schema_resolved example_rows finally_jump_def
          jump_def file_parsed_def s)
qed

theorem all_rows_count_witness:
  "all \<lparr>buffer = example_file, cursor = 0\<rparr> =
     Some (Resolved file_parsed, \<lparr>buffer = example_file, cursor = 0\<rparr>) \<and>
   int (length (p_rows file_parsed)) = m_cases (p_meta file_parsed) \<and>
   m_cases (p_meta file_parsed) = 3"
  using all_rows_count [OF example_all] example_all
  by (simp add: file_parsed_def file_meta_def)

end
